theory Spec2Isabelle
  imports Main "HOL-Library.AList"
begin

section \<open>Text helpers\<close>

text \<open>
  JavaScript strings are modelled as \<^typ>\<open>string\<close> over ASCII text. Times are
  milliseconds since the epoch (\<open>Date.now()\<close>), as \<^typ>\<open>int\<close>.
\<close>

text \<open>The characters matched by \<open>\s\<close> and removed by \<open>trim()\<close>, within ASCII.\<close>

definition isSpace :: "char \<Rightarrow> bool" where
  "isSpace c = (of_char c \<in> {9, 10, 11, 12, 13, 32 :: nat})"

definition lowerChar :: "char \<Rightarrow> char" where
  "lowerChar c =
     (if 65 \<le> (of_char c :: nat) \<and> (of_char c :: nat) \<le> 90
      then char_of ((of_char c :: nat) + 32) else c)"

definition toLowerCase :: "string \<Rightarrow> string" where
  "toLowerCase s = map lowerChar s"

definition trim :: "string \<Rightarrow> string" where
  "trim s = rev (dropWhile isSpace (rev (dropWhile isSpace s)))"

text \<open>
  \<open>s.split(/\s+/)\<close>: the pieces between maximal runs of white space; a leading or a
  trailing run leaves an empty first or last piece, as in JavaScript. \<open>acc\<close> is the
  current piece, reversed; \<open>inSep\<close> says that the previous character was white space.
\<close>

fun splitWs :: "string \<Rightarrow> bool \<Rightarrow> string \<Rightarrow> string list" where
  "splitWs acc inSep [] = [rev acc]"
| "splitWs acc inSep (c # cs) =
     (if isSpace c
      then (if inSep then splitWs acc True cs else rev acc # splitWs [] True cs)
      else splitWs (c # acc) False cs)"

definition splitSpaces :: "string \<Rightarrow> string list" where
  "splitSpaces s = splitWs [] False s"

fun startsWith :: "string \<Rightarrow> string \<Rightarrow> bool" where
  "startsWith s [] = True"
| "startsWith [] (d # t) = False"
| "startsWith (c # s) (d # t) = (c = d \<and> startsWith s t)"

text \<open>\<open>s.includes(t)\<close>: \<open>t\<close> occurs in \<open>s\<close> as a contiguous substring.\<close>

fun includesStr :: "string \<Rightarrow> string \<Rightarrow> bool" where
  "includesStr [] t = (t = [])"
| "includesStr (c # s) t = (startsWith (c # s) t \<or> includesStr s t)"

text \<open>A JavaScript string is truthy when it is not empty.\<close>

definition truthy :: "string \<Rightarrow> bool" where
  "truthy s = (s \<noteq> [])"

section \<open>Knowledge base lookup (\<open>AgentService.findSimilarQuestion\<close>)\<close>

record knowledgeBaseEntry =
  kbId :: string
  kbQuestion :: string
  kbAnswer :: string
  kbSource :: string
  kbCreatedAt :: int

definition keywordsOf :: "string \<Rightarrow> string list" where
  "keywordsOf lower = filter (\<lambda>word. length word > 3) (splitSpaces lower)"

definition matchingKeywords :: "string list \<Rightarrow> string list \<Rightarrow> string list" where
  "matchingKeywords keywords entryKeywords =
     filter (\<lambda>keyword.
        list_ex (\<lambda>entryKeyword. includesStr entryKeyword keyword \<or> includesStr keyword entryKeyword)
          entryKeywords) keywords"

text \<open>\<open>Math.ceil(n * 0.5)\<close> for a length \<open>n\<close>; the product is exact in a double.\<close>

definition ceilHalf :: "nat \<Rightarrow> nat" where
  "ceilHalf n = (n + 1) div 2"

text \<open>The body of the \<open>for (const entry of entries)\<close> loop, one entry per step.\<close>

fun scanEntries :: "string \<Rightarrow> string list \<Rightarrow> knowledgeBaseEntry list \<Rightarrow> string option" where
  "scanEntries messageLower keywords [] = None"
| "scanEntries messageLower keywords (entry # entries) =
     (let entryQuestion = toLowerCase (kbQuestion entry) in
      if entryQuestion = messageLower then Some (kbAnswer entry)
      else
        let entryKeywords = keywordsOf entryQuestion;
            matching = matchingKeywords keywords entryKeywords
        in if length matching \<ge> ceilHalf (length keywords) then Some (kbAnswer entry)
           else scanEntries messageLower keywords entries)"

definition findSimilarQuestion :: "string \<Rightarrow> knowledgeBaseEntry list \<Rightarrow> string option" where
  "findSimilarQuestion message entries =
     (let messageLower = toLowerCase message;
          keywords = keywordsOf messageLower
      in scanEntries messageLower keywords entries)"

text \<open>
  The lookup as a search: an entry answers the message when its question equals the
  message without regard to case, or when enough of the message's keywords overlap.
\<close>

definition exactMatch :: "string \<Rightarrow> knowledgeBaseEntry \<Rightarrow> bool" where
  "exactMatch message entry = (toLowerCase (kbQuestion entry) = toLowerCase message)"

definition overlapMatch :: "string \<Rightarrow> knowledgeBaseEntry \<Rightarrow> bool" where
  "overlapMatch message entry =
     (let keywords = keywordsOf (toLowerCase message) in
      length (matchingKeywords keywords (keywordsOf (toLowerCase (kbQuestion entry))))
        \<ge> ceilHalf (length keywords))"

definition firstQualifying :: "string \<Rightarrow> knowledgeBaseEntry list \<Rightarrow> string option" where
  "firstQualifying message entries =
     map_option kbAnswer (find (\<lambda>entry. exactMatch message entry \<or> overlapMatch message entry) entries)"

section \<open>The store, the caches and the event bus\<close>

datatype helpRequestStatus = Pending | Resolved | Unresolved

text \<open>A row of the \<open>HelpRequest\<close> table; \<open>hrId\<close> is its primary key \<open>id\<close>.\<close>

record helpRequest =
  hrId :: string
  question :: string
  callerId :: string
  status :: helpRequestStatus
  createdAt :: int
  resolvedAt :: "int option"
  supervisorResponse :: "string option"
  knowledgeBaseEntryId :: "string option"

text \<open>The payloads of \<open>eventBus.emit\<close>, fields in the order of their interfaces.\<close>

datatype event =
    HelpRequestCreated string string string
  | HelpRequestResolved string string string string
  | HelpRequestExpired string string string
  | KnowledgeBaseUpdated string string string string
  | CallerMessageReceived string string string
  | SupervisorResponseSent string string string string

datatype error = RequestNotFound | RecordNotFound | StoreFailure

text \<open>
  The state shared by the services: the two tables, the module-level maps and sets
  (JavaScript \<open>Map\<close>s as association lists in insertion order), the texts handed to
  \<open>publishDataToRoom\<close> (room name, text) and the events emitted, both oldest first.
\<close>

record state =
  helpRequests :: "helpRequest list"
  knowledgeBaseEntries :: "knowledgeBaseEntry list"
  knowledgeBase :: "(string \<times> string) list"
  supervisorResponseCache :: "(string \<times> (string \<times> int) list) list"
  sentSupervisorResponses :: "string set"
  responseCache :: "(string \<times> (string \<times> int)) list"
  published :: "(string \<times> string) list"
  emitted :: "event list"

definition CACHE_TTL :: int where
  "CACHE_TTL = 5 * 60 * 1000"

definition SUPERVISOR_RESPONSE :: string where
  "SUPERVISOR_RESPONSE = ''I've consulted with my supervisor and they say: ''"

subsection \<open>\<open>db-update.ts\<close>\<close>

definition getCallerId :: "helpRequest \<Rightarrow> string" where
  "getCallerId h = (if truthy (callerId h) then callerId h else ''unknown'')"

definition createCallerIdWhereClause :: "string \<Rightarrow> string" where
  "createCallerIdWhereClause c = trim c"

definition createHelpRequestData :: "string \<Rightarrow> int \<Rightarrow> string \<Rightarrow> string \<Rightarrow> helpRequest" where
  "createHelpRequestData newId now q c =
     \<lparr>hrId = newId, question = q, callerId = trim c, status = Pending, createdAt = now,
      resolvedAt = None, supervisorResponse = None, knowledgeBaseEntryId = None\<rparr>"

subsection \<open>Store operations\<close>

definition findUnique :: "helpRequest list \<Rightarrow> string \<Rightarrow> helpRequest option" where
  "findUnique table i = find (\<lambda>h. hrId h = i) table"

text \<open>The \<open>data\<close> argument of an update: the fields to overwrite.\<close>

record updateData =
  newStatus :: "helpRequestStatus option"
  newResolvedAt :: "int option"
  newSupervisorResponse :: "string option"
  newKnowledgeBaseEntryId :: "string option"

definition applyData :: "updateData \<Rightarrow> helpRequest \<Rightarrow> helpRequest" where
  "applyData d h =
     h\<lparr>status := (case newStatus d of None \<Rightarrow> status h | Some v \<Rightarrow> v),
       resolvedAt := (case newResolvedAt d of None \<Rightarrow> resolvedAt h | Some v \<Rightarrow> Some v),
       supervisorResponse :=
         (case newSupervisorResponse d of None \<Rightarrow> supervisorResponse h | Some v \<Rightarrow> Some v),
       knowledgeBaseEntryId :=
         (case newKnowledgeBaseEntryId d of None \<Rightarrow> knowledgeBaseEntryId h | Some v \<Rightarrow> Some v)\<rparr>"

text \<open>
  \<open>prisma.helpRequest.update({ where: { id }, data })\<close>: the updated row and the new
  table; \<open>None\<close> when no row has the id (the call rejects).
\<close>

definition prismaUpdate ::
  "string \<Rightarrow> updateData \<Rightarrow> helpRequest list \<Rightarrow> (helpRequest \<times> helpRequest list) option" where
  "prismaUpdate i d table =
     (case findUnique table i of
        None \<Rightarrow> None
      | Some h \<Rightarrow> Some (applyData d h, map (\<lambda>g. if hrId g = i then applyData d g else g) table))"

text \<open>
  \<open>orderBy: { resolvedAt: 'desc' }\<close> followed by \<open>findFirst\<close>: the row with the latest
  \<open>resolvedAt\<close>, a missing one sorting first as in PostgreSQL, the earliest row of the
  table among equals.
\<close>

fun laterThan :: "int option \<Rightarrow> int option \<Rightarrow> bool" where
  "laterThan None None = False"
| "laterThan None (Some b) = True"
| "laterThan (Some a) None = False"
| "laterThan (Some a) (Some b) = (a > b)"

fun mostRecent :: "helpRequest list \<Rightarrow> helpRequest option" where
  "mostRecent [] = None"
| "mostRecent (h # hs) =
     (case mostRecent hs of
        None \<Rightarrow> Some h
      | Some g \<Rightarrow> if laterThan (resolvedAt g) (resolvedAt h) then Some g else Some h)"

definition resolvedFor :: "helpRequest list \<Rightarrow> string \<Rightarrow> helpRequest list" where
  "resolvedFor table c =
     filter (\<lambda>h. callerId h = createCallerIdWhereClause c \<and> status h = Resolved
                 \<and> supervisorResponse h \<noteq> None) table"

subsection \<open>The delivery ledger of \<open>agentService.ts\<close>\<close>

definition hasSentSupervisorResponse ::
  "(string \<times> (string \<times> int) list) list \<Rightarrow> string \<Rightarrow> string \<Rightarrow> bool" where
  "hasSentSupervisorResponse cache c responseId =
     (case map_of cache c of None \<Rightarrow> False | Some responses \<Rightarrow> map_of responses responseId \<noteq> None)"

definition markSupervisorResponseSent ::
  "int \<Rightarrow> string \<Rightarrow> string \<Rightarrow> (string \<times> (string \<times> int) list) list
     \<Rightarrow> (string \<times> (string \<times> int) list) list" where
  "markSupervisorResponseSent now c responseId cache =
     (let responses = (case map_of cache c of None \<Rightarrow> [] | Some m \<Rightarrow> m)
      in AList.update c (AList.update responseId now responses) cache)"


subsection \<open>Events and their listeners\<close>

definition emit :: "event \<Rightarrow> state \<Rightarrow> state" where
  "emit e s = s\<lparr>emitted := emitted s @ [e]\<rparr>"

text \<open>
  \<open>SUPERVISOR_RESPONSE_SENT\<close> is heard by \<open>AgentService.handleSupervisorResponse\<close>, which
  marks the ledger. The services' instances share the module-level maps, so a second
  instance's listener repeats the same write.
\<close>

definition emitSupervisorResponseSent ::
  "int \<Rightarrow> string \<Rightarrow> string \<Rightarrow> string \<Rightarrow> string \<Rightarrow> state \<Rightarrow> state" where
  "emitSupervisorResponseSent now i c response roomName s =
     (let s1 = emit (SupervisorResponseSent i c response roomName) s
      in s1\<lparr>supervisorResponseCache :=
              markSupervisorResponseSent now c i (supervisorResponseCache s1)\<rparr>)"

text \<open>
  \<open>SupervisorService.handleHelpRequestResolved\<close>. \<open>sent\<close> is what
  \<open>publishDataToRoom\<close> answers; a push that throws is logged like one that answers
  false.
\<close>

definition handleHelpRequestResolved ::
  "int \<Rightarrow> bool \<Rightarrow> string \<Rightarrow> string \<Rightarrow> string \<Rightarrow> state \<Rightarrow> state" where
  "handleHelpRequestResolved now sent i c answer s =
     (if i \<in> sentSupervisorResponses s then s
      else if truthy c \<and> c \<noteq> ''unknown'' then
        (let roomName = ''call-'' @ c;
             supervisorResponse = SUPERVISOR_RESPONSE @ answer;
             s1 = s\<lparr>sentSupervisorResponses := insert i (sentSupervisorResponses s)\<rparr>;
             s2 = s1\<lparr>published := published s1 @ [(roomName, supervisorResponse)]\<rparr>
         in if sent then emitSupervisorResponseSent now i c answer roomName s2 else s2)
      else s)"

text \<open>
  \<open>HELP_REQUEST_RESOLVED\<close>: every \<open>SupervisorService\<close> instance listens, on the shared
  set \<open>sentSupervisorResponses\<close>; the first listener adds the id before it pushes, or no
  listener acts at all, so the listeners after the first find nothing to do.
\<close>

definition emitHelpRequestResolved ::
  "int \<Rightarrow> bool \<Rightarrow> string \<Rightarrow> string \<Rightarrow> string \<Rightarrow> string \<Rightarrow> state \<Rightarrow> state" where
  "emitHelpRequestResolved now sent i q c answer s =
     handleHelpRequestResolved now sent i c answer (emit (HelpRequestResolved i q c answer) s)"

section \<open>\<open>helpRequestModel\<close>\<close>

text \<open>
  \<open>create\<close>: the insert, then \<open>HELP_REQUEST_CREATED\<close> (its listener only logs). The
  store supplies the new row's id and its creation time.
\<close>

definition create :: "string \<Rightarrow> int \<Rightarrow> string \<Rightarrow> string \<Rightarrow> state \<Rightarrow> helpRequest \<times> state" where
  "create newId now q c s =
     (let newRequest = createHelpRequestData newId now q c;
          s1 = s\<lparr>helpRequests := helpRequests s @ [newRequest]\<rparr>
      in (newRequest, emit (HelpRequestCreated (hrId newRequest) q c) s1))"

definition getById :: "string \<Rightarrow> state \<Rightarrow> helpRequest option" where
  "getById i s = findUnique (helpRequests s) i"

text \<open>
  \<open>update\<close>: the write, then the event chosen from \<open>data\<close>. \<open>HELP_REQUEST_EXPIRED\<close>
  has a listener that only logs.
\<close>

definition update :: "int \<Rightarrow> bool \<Rightarrow> string \<Rightarrow> updateData \<Rightarrow> state \<Rightarrow> (error + helpRequest) \<times> state" where
  "update now sent i d s =
     (case prismaUpdate i d (helpRequests s) of
        None \<Rightarrow> (Inl RecordNotFound, s)
      | Some (updatedRequest, table) \<Rightarrow>
          (let s1 = s\<lparr>helpRequests := table\<rparr> in
           if newStatus d = Some Resolved
              \<and> (case newSupervisorResponse d of None \<Rightarrow> False | Some a \<Rightarrow> truthy a)
           then (Inr updatedRequest,
                 emitHelpRequestResolved now sent (hrId updatedRequest) (question updatedRequest)
                   (getCallerId updatedRequest) (the (newSupervisorResponse d)) s1)
           else if newStatus d = Some Unresolved
           then (Inr updatedRequest,
                 emit (HelpRequestExpired (hrId updatedRequest) (question updatedRequest)
                   (getCallerId updatedRequest)) s1)
           else (Inr updatedRequest, s1)))"

definition expiredData :: "int \<Rightarrow> updateData" where
  "expiredData now =
     \<lparr>newStatus = Some Unresolved, newResolvedAt = Some now,
      newSupervisorResponse = None, newKnowledgeBaseEntryId = None\<rparr>"

text \<open>
  \<open>markAsExpired\<close>. \<open>fails\<close> says for which ids the store rejects the write; the
  rejection is the function's own, as it has no handler.
\<close>

definition markAsExpired ::
  "(string \<Rightarrow> bool) \<Rightarrow> int \<Rightarrow> string \<Rightarrow> state \<Rightarrow> (error + helpRequest option) \<times> state" where
  "markAsExpired fails now i s =
     (case findUnique (helpRequests s) i of
        None \<Rightarrow> (Inr None, s)
      | Some request \<Rightarrow>
          if status request \<noteq> Pending then (Inr None, s)
          else if fails i then (Inl StoreFailure, s)
          else
            (case prismaUpdate i (expiredData now) (helpRequests s) of
               None \<Rightarrow> (Inl RecordNotFound, s)
             | Some (updatedRequest, table) \<Rightarrow>
                 (Inr (Some updatedRequest),
                  emit (HelpRequestExpired (hrId updatedRequest) (question updatedRequest)
                    (getCallerId updatedRequest)) (s\<lparr>helpRequests := table\<rparr>))))"

section \<open>\<open>SupervisorService\<close>\<close>

datatype resolveResult = AlreadyProcessed | AlreadyResolved | Updated helpRequest

definition resolvedData :: "int \<Rightarrow> string \<Rightarrow> updateData" where
  "resolvedData now answer =
     \<lparr>newStatus = Some Resolved, newResolvedAt = Some now,
      newSupervisorResponse = Some answer, newKnowledgeBaseEntryId = None\<rparr>"

definition linkData :: "string \<Rightarrow> updateData" where
  "linkData k =
     \<lparr>newStatus = None, newResolvedAt = None,
      newSupervisorResponse = None, newKnowledgeBaseEntryId = Some k\<rparr>"

text \<open>
  \<open>resolveHelpRequest\<close>. \<open>newKbId\<close> is the id the store gives the new knowledge base
  entry; \<open>sent\<close> is the outcome of the push made by the listener of the resolved event.
  An update returns the row or rejects, so the source's \<open>if (!updated)\<close> never fires.
\<close>

definition resolveHelpRequest ::
  "int \<Rightarrow> bool \<Rightarrow> string \<Rightarrow> string \<Rightarrow> string \<Rightarrow> state \<Rightarrow> (error + resolveResult) \<times> state" where
  "resolveHelpRequest now sent newKbId i answer s =
     (if i \<in> sentSupervisorResponses s then (Inr AlreadyProcessed, s)
      else
        (case getById i s of
           None \<Rightarrow> (Inl RequestNotFound, s)
         | Some request \<Rightarrow>
             if status request = Resolved
             then (Inr AlreadyResolved,
                   s\<lparr>sentSupervisorResponses := insert i (sentSupervisorResponses s)\<rparr>)
             else
               (case update now sent i (resolvedData now answer) s of
                  (Inl e, s1) \<Rightarrow> (Inl e, s1)
                | (Inr updated, s1) \<Rightarrow>
                    (let kbEntry = \<lparr>kbId = newKbId, kbQuestion = question request,
                                    kbAnswer = answer, kbSource = ''supervisor'',
                                    kbCreatedAt = now\<rparr>;
                         s2 = s1\<lparr>knowledgeBaseEntries := knowledgeBaseEntries s1 @ [kbEntry]\<rparr>
                     in (case update now sent i (linkData (kbId kbEntry)) s2 of
                           (Inl e, s3) \<Rightarrow> (Inl e, s3)
                         | (Inr linked, s3) \<Rightarrow> (Inr (Updated updated), s3))))))"

text \<open>\<open>createHelpRequest\<close>: the caller id trimmed, then \<open>helpRequestModel.create\<close>.\<close>

definition createHelpRequest :: "string \<Rightarrow> int \<Rightarrow> string \<Rightarrow> string \<Rightarrow> state \<Rightarrow> helpRequest \<times> state" where
  "createHelpRequest newId now q c s = create newId now q (trim c) s"

section \<open>The supervisor routes\<close>

datatype resolveResponse =
    MissingParameters
  | BadRequestAlreadyResolved
  | ServerError error
  | ResultJson resolveResult
  | NotifiedJson resolveResult bool

text \<open>
  \<open>POST /help-requests/:id/resolve\<close>. \<open>sent\<close> is the outcome of the listener's push,
  \<open>sentByRoute\<close> that of the route's own push; a throw of the latter is answered with
  status 200 and is folded into \<open>False\<close>.
\<close>

definition resolveRoute ::
  "int \<Rightarrow> bool \<Rightarrow> bool \<Rightarrow> string \<Rightarrow> string \<Rightarrow> string \<Rightarrow> state \<Rightarrow> resolveResponse \<times> state" where
  "resolveRoute now sent sentByRoute newKbId i answer s =
     (if \<not> truthy answer then (MissingParameters, s)
      else
        (let existingRequest = findUnique (helpRequests s) i in
         if (case existingRequest of None \<Rightarrow> False | Some r \<Rightarrow> status r = Resolved)
         then (BadRequestAlreadyResolved, s)
         else
           (case resolveHelpRequest now sent newKbId i answer s of
              (Inl e, s1) \<Rightarrow> (ServerError e, s1)
            | (Inr result, s1) \<Rightarrow>
                (case existingRequest of
                   None \<Rightarrow> (ResultJson result, s1)
                 | Some r \<Rightarrow>
                     (let c = getCallerId r in
                      if truthy c \<and> c \<noteq> ''unknown'' then
                        (let roomName = ''call-'' @ c;
                             supervisorResponse = SUPERVISOR_RESPONSE @ answer;
                             s2 = s1\<lparr>responseCache := AList.update c (answer, now) (responseCache s1)\<rparr>;
                             s3 = s2\<lparr>published := published s2 @ [(roomName, supervisorResponse)]\<rparr>
                         in (NotifiedJson result sentByRoute, s3))
                      else (ResultJson result, s1))))))"

datatype pollResponse =
    PollMissingParameters
  | FromCache string
  | FromStore string string "int option"
  | NoSupervisorResponseFound

text \<open>The timer that empties \<open>responseCache\<close>, every \<open>CACHE_TTL\<close> milliseconds.\<close>

definition cleanupResponseCache ::
  "int \<Rightarrow> (string \<times> (string \<times> int)) list \<Rightarrow> (string \<times> (string \<times> int)) list" where
  "cleanupResponseCache now cache =
     filter (\<lambda>(key, (response, timestamp)). \<not> (now - timestamp > CACHE_TTL)) cache"

text \<open>
  The cache check of \<open>POST /supervisor-response\<close>:
  \<open>cachedResponse && Date.now() - cachedResponse.timestamp <= CACHE_TTL\<close>.
\<close>

definition freshCachedResponse ::
  "int \<Rightarrow> (string \<times> (string \<times> int)) list \<Rightarrow> string \<Rightarrow> string option" where
  "freshCachedResponse now cache c =
     (case map_of cache c of
        None \<Rightarrow> None
      | Some (response, timestamp) \<Rightarrow>
          if now - timestamp \<le> CACHE_TTL then Some response else None)"

text \<open>\<open>POST /supervisor-response\<close> of the supervisor router.\<close>

definition supervisorResponseRoute ::
  "int \<Rightarrow> string \<Rightarrow> string \<Rightarrow> state \<Rightarrow> pollResponse \<times> state" where
  "supervisorResponseRoute now roomName c s =
     (if \<not> truthy roomName \<or> \<not> truthy c then (PollMissingParameters, s)
      else
        (case freshCachedResponse now (responseCache s) c of
           Some response \<Rightarrow> (FromCache response, s)
         | None \<Rightarrow>
             (let actualCallerId = (if startsWith c ''caller-'' then drop 7 c else c) in
              case mostRecent (resolvedFor (helpRequests s) actualCallerId) of
                None \<Rightarrow> (NoSupervisorResponseFound, s)
              | Some h \<Rightarrow>
                  (case supervisorResponse h of
                     None \<Rightarrow> (NoSupervisorResponseFound, s)
                   | Some response \<Rightarrow>
                       if truthy response
                       then (FromStore response (question h) (resolvedAt h),
                             s\<lparr>responseCache := AList.update c (response, now) (responseCache s)\<rparr>)
                       else (NoSupervisorResponseFound, s)))))"

section \<open>\<open>AgentService.handleMessage\<close>\<close>

definition isSpecialMessage :: "string \<Rightarrow> bool" where
  "isSpecialMessage message =
     (if \<not> truthy message then False
      else
        message = ''__CHECK_SUPERVISOR_RESPONSES__'' \<or>
        message = ''Has my supervisor replied with an answer yet?'' \<or>
        message = ''What did my supervisor say?'' \<or>
        message = ''What was the supervisor's response?'' \<or>
        message = ''Did the supervisor answer my question?'' \<or>
        (includesStr (toLowerCase message) ''supervisor'' \<and>
          (includesStr (toLowerCase message) ''replied'' \<or>
           includesStr (toLowerCase message) ''responded'' \<or>
           includesStr (toLowerCase message) ''answer'')))"

text \<open>
  What \<open>handleMessage\<close> returns, one constructor for each text; \<open>render\<close> gives the
  text. \<open>SupervisorAnswer\<close> also records the id of the help request whose answer is
  delivered, which the text does not show.
\<close>

datatype reply =
    SupervisorAnswer string string
  | AlreadySentCommand
  | AlreadySentQuery
  | NoSupervisorResponse
  | KnowledgeAnswer string
  | WaitingForSupervisor
  | CheckingWithSupervisor string
  | DontKnow

fun render :: "reply \<Rightarrow> string" where
  "render (SupervisorAnswer i response) =
     ''I've consulted with my supervisor and they say: '' @ response"
| "render AlreadySentCommand =
     ''Yes, your supervisor has responded. The message has already been sent to you.''"
| "render AlreadySentQuery =
     ''Yes, your supervisor has responded. I've already sent you their response.''"
| "render NoSupervisorResponse = ''I haven't received any supervisor responses yet.''"
| "render (KnowledgeAnswer answer) = answer"
| "render WaitingForSupervisor =
     ''I'm still waiting for my supervisor to answer your question. I'll let you know as soon as I hear back.''"
| "render (CheckingWithSupervisor message) =
     ''Let me check with my supervisor about '' @ [CHR 0x22] @ message @ [CHR 0x22]
       @ '' and get back to you.''"
| "render DontKnow =
     ''I'm sorry, I don't know the answer to that. Please try asking something else.''"

definition formatCallerId :: "string \<Rightarrow> string" where
  "formatCallerId c = trim c"

definition hasCaller :: "string option \<Rightarrow> bool" where
  "hasCaller caller = (case caller of None \<Rightarrow> False | Some c \<Rightarrow> truthy c)"

text \<open>Marking the ledger and answering with the supervisor's response.\<close>

definition deliver :: "int \<Rightarrow> string \<Rightarrow> helpRequest \<Rightarrow> string \<Rightarrow> state \<Rightarrow> reply \<times> state" where
  "deliver now c h response s =
     (SupervisorAnswer (hrId h) response,
      s\<lparr>supervisorResponseCache :=
          markSupervisorResponseSent now c (hrId h) (supervisorResponseCache s)\<rparr>)"

text \<open>
  The two status-check branches when the store answers their lookup: the latest
  resolved request of the caller, answered when it is less than ten minutes old, with
  \<open>alreadySent\<close> when the ledger has it.
\<close>

definition statusCheck :: "int \<Rightarrow> string \<Rightarrow> reply \<Rightarrow> state \<Rightarrow> reply \<times> state" where
  "statusCheck now c alreadySent s =
     (case mostRecent (resolvedFor (helpRequests s) (formatCallerId c)) of
        None \<Rightarrow> (NoSupervisorResponse, s)
      | Some h \<Rightarrow>
          (case supervisorResponse h of
             None \<Rightarrow> (NoSupervisorResponse, s)
           | Some response \<Rightarrow>
               if \<not> truthy response then (NoSupervisorResponse, s)
               else
                 (let timeSinceResponse = now - (case resolvedAt h of None \<Rightarrow> 0 | Some t \<Rightarrow> t) in
                  if timeSinceResponse < 10 * 60 * 1000 then
                    (if hasSentSupervisorResponse (supervisorResponseCache s) c (hrId h)
                     then (alreadySent, s)
                     else deliver now c h response s)
                  else (NoSupervisorResponse, s))))"

text \<open>The latest request of the caller resolved within the last minute.\<close>

definition recentResponse :: "int \<Rightarrow> string \<Rightarrow> state \<Rightarrow> helpRequest option" where
  "recentResponse now c s =
     mostRecent
       (filter (\<lambda>h. case resolvedAt h of None \<Rightarrow> False | Some t \<Rightarrow> t \<ge> now - 60 * 1000)
          (resolvedFor (helpRequests s) (formatCallerId c)))"

text \<open>
  Which of the store's queries in one call of \<open>handleMessage\<close> are rejected. Each
  query sits in a \<open>try\<close> whose \<open>catch\<close> only logs: the resolved-request lookup of a
  status check, the recent-response lookup, the \<open>findMany\<close> of \<open>findSimilarQuestion\<close>,
  the pending-request lookup and the insert.
\<close>

record storeFaults =
  statusLookupFails :: bool
  recentLookupFails :: bool
  knowledgeLookupFails :: bool
  pendingLookupFails :: bool
  createFails :: bool

definition noFaults :: storeFaults where
  "noFaults =
     \<lparr>statusLookupFails = False, recentLookupFails = False, knowledgeLookupFails = False,
      pendingLookupFails = False, createFails = False\<rparr>"

text \<open>
  The awaited pending-request lookup: \<open>findFirst\<close> with the caller id, the status
  pending and the exact question.
\<close>

definition findPendingRequest ::
  "storeFaults \<Rightarrow> string \<Rightarrow> string \<Rightarrow> state \<Rightarrow> error + helpRequest option" where
  "findPendingRequest faults c message s =
     (if pendingLookupFails faults then Inl StoreFailure
      else Inr (find (\<lambda>h. callerId h = createCallerIdWhereClause (formatCallerId c)
                          \<and> status h = Pending \<and> question h = message) (helpRequests s)))"

text \<open>
  The awaited insert, made through the store directly, and the reply after it; a
  rejected insert is logged and leaves to the last return of \<open>handleMessage\<close>.
\<close>

definition createRequest ::
  "storeFaults \<Rightarrow> string \<Rightarrow> int \<Rightarrow> string \<Rightarrow> string \<Rightarrow> state \<Rightarrow> reply \<times> state" where
  "createRequest faults newId now message c s =
     (if createFails faults then (DontKnow, s)
      else
        (CheckingWithSupervisor message,
         s\<lparr>helpRequests :=
             helpRequests s @ [createHelpRequestData newId now message (formatCallerId c)]\<rparr>))"

text \<open>
  What \<open>handleMessage\<close> does with the outcome of the pending-request lookup, in the
  state the store has by then: a request found ends the call with the waiting text; an
  empty answer, and a rejection (which is only logged), go on to the insert.
\<close>

definition afterPendingLookup ::
  "error + helpRequest option \<Rightarrow> storeFaults \<Rightarrow> string \<Rightarrow> int \<Rightarrow> string \<Rightarrow> string \<Rightarrow> state
     \<Rightarrow> reply \<times> state" where
  "afterPendingLookup found faults newId now message c s =
     (case found of
        Inr (Some pendingRequest) \<Rightarrow> (WaitingForSupervisor, s)
      | Inr None \<Rightarrow> createRequest faults newId now message c s
      | Inl e \<Rightarrow> createRequest faults newId now message c s)"

text \<open>
  The end of \<open>handleMessage\<close> when nothing happens between its lookup and its insert,
  and the two last returns.
\<close>

definition escalate ::
  "storeFaults \<Rightarrow> string \<Rightarrow> int \<Rightarrow> string \<Rightarrow> string option \<Rightarrow> state \<Rightarrow> reply \<times> state" where
  "escalate faults newId now message caller s =
     (if hasCaller caller \<and> \<not> isSpecialMessage message then
        afterPendingLookup (findPendingRequest faults (the caller) message s)
          faults newId now message (the caller) s
      else if hasCaller caller \<and> isSpecialMessage message then (WaitingForSupervisor, s)
      else (DontKnow, s))"

text \<open>
  The source awaits the lookup and then the insert, and neither a transaction nor a
  unique constraint joins the two. This is the end of two calls by caller \<open>c\<close> with the
  same text, not a special message, when they overlap: both lookups are answered from
  the state \<open>s\<close>, before either insert is made.
\<close>

definition escalateTogether ::
  "storeFaults \<Rightarrow> string \<Rightarrow> string \<Rightarrow> int \<Rightarrow> string \<Rightarrow> string \<Rightarrow> state
     \<Rightarrow> (reply \<times> reply) \<times> state" where
  "escalateTogether faults firstId secondId now message c s =
     (let firstFound = findPendingRequest faults c message s;
          secondFound = findPendingRequest faults c message s;
          first = afterPendingLookup firstFound faults firstId now message c s;
          second = afterPendingLookup secondFound faults secondId now message c (snd first)
      in ((fst first, fst second), snd second))"

text \<open>\<open>this.knowledgeBase.get(message.toLowerCase())\<close>, when it is truthy.\<close>

definition memoryAnswer :: "string \<Rightarrow> state \<Rightarrow> string option" where
  "memoryAnswer message s =
     (case map_of (knowledgeBase s) (toLowerCase message) of
        None \<Rightarrow> None
      | Some answer \<Rightarrow> if truthy answer then Some answer else None)"

text \<open>
  The answer of \<open>findSimilarQuestion\<close>, when it is truthy; a rejected \<open>findMany\<close> is
  logged and counts as no answer.
\<close>

definition databaseAnswer :: "storeFaults \<Rightarrow> string \<Rightarrow> state \<Rightarrow> string option" where
  "databaseAnswer faults message s =
     (if knowledgeLookupFails faults then None
      else
        (case findSimilarQuestion message (knowledgeBaseEntries s) of
           None \<Rightarrow> None
         | Some dbAnswer \<Rightarrow> if truthy dbAnswer then Some dbAnswer else None))"

text \<open>The regular flow: the in-memory knowledge base, the stored one, then escalation.\<close>

definition regularFlow ::
  "storeFaults \<Rightarrow> string \<Rightarrow> int \<Rightarrow> string \<Rightarrow> string option \<Rightarrow> state \<Rightarrow> reply \<times> state" where
  "regularFlow faults newId now message caller s =
     (case memoryAnswer message s of
        Some answer \<Rightarrow> (KnowledgeAnswer answer, s)
      | None \<Rightarrow>
          (case databaseAnswer faults message s of
             Some dbAnswer \<Rightarrow>
               (KnowledgeAnswer dbAnswer,
                s\<lparr>knowledgeBase := AList.update (toLowerCase message) dbAnswer (knowledgeBase s)\<rparr>)
           | None \<Rightarrow> escalate faults newId now message caller s))"

text \<open>
  \<open>handleMessage\<close>. \<open>newId\<close> is the id the store gives a help request inserted by this
  call. A rejected lookup in the command branch is answered with the no-response text;
  in the status-query branch and in the recent-response check it is logged and the
  function goes on.
\<close>

definition handleMessage ::
  "storeFaults \<Rightarrow> string \<Rightarrow> int \<Rightarrow> string \<Rightarrow> string \<Rightarrow> string option \<Rightarrow> state
     \<Rightarrow> reply \<times> state" where
  "handleMessage faults newId now roomName message caller s =
     (if \<not> hasCaller caller then regularFlow faults newId now message caller s
      else
        (let c = the caller;
             s0 = emit (CallerMessageReceived roomName c message) s
         in
         if message = ''__CHECK_SUPERVISOR_RESPONSES__'' then
           (if statusLookupFails faults then (NoSupervisorResponse, s0)
            else statusCheck now c AlreadySentCommand s0)
         else if (includesStr (toLowerCase message) ''has my supervisor responded''
                  \<or> includesStr (toLowerCase message) ''what did my supervisor say''
                  \<or> includesStr (toLowerCase message) ''any response from supervisor'')
                 \<and> \<not> statusLookupFails faults
         then statusCheck now c AlreadySentQuery s0
         else if recentLookupFails faults then regularFlow faults newId now message caller s0
         else
           (case recentResponse now c s0 of
              None \<Rightarrow> regularFlow faults newId now message caller s0
            | Some h \<Rightarrow>
                (case supervisorResponse h of
                   None \<Rightarrow> regularFlow faults newId now message caller s0
                 | Some response \<Rightarrow>
                     if truthy response
                        \<and> \<not> hasSentSupervisorResponse (supervisorResponseCache s0) c (hrId h)
                     then deliver now c h response s0
                     else regularFlow faults newId now message caller s0))))"

section \<open>The timeout workers\<close>

definition HELP_REQUEST_TIMEOUT_MINUTES :: int where
  "HELP_REQUEST_TIMEOUT_MINUTES = 30"

text \<open>The loop of \<open>checkAndProcessExpiredRequests\<close>; a rejection leaves the loop.\<close>

fun expireEach ::
  "(string \<Rightarrow> bool) \<Rightarrow> int \<Rightarrow> helpRequest list \<Rightarrow> state \<Rightarrow> error option \<times> state" where
  "expireEach fails now [] s = (None, s)"
| "expireEach fails now (request # rest) s =
     (case markAsExpired fails now (hrId request) s of
        (Inl e, s1) \<Rightarrow> (Some e, s1)
      | (Inr r, s1) \<Rightarrow> expireEach fails now rest s1)"

text \<open>
  \<open>checkAndProcessExpiredRequests\<close>, run by the cron job every five minutes: the state
  it leaves and the error its \<open>catch\<close> logged, if any. \<open>checkInactiveRooms\<close>, which
  only reads and logs, is left out.
\<close>

definition checkAndProcessExpiredRequests ::
  "(string \<Rightarrow> bool) \<Rightarrow> int \<Rightarrow> state \<Rightarrow> error option \<times> state" where
  "checkAndProcessExpiredRequests fails now s =
     (let pendingRequests =
            filter (\<lambda>h. status h = Pending
                        \<and> createdAt h < now - HELP_REQUEST_TIMEOUT_MINUTES * 60 * 1000)
              (helpRequests s)
      in expireEach fails now pendingRequests s)"

definition DEFAULT_TIMEOUT_MINUTES :: int where
  "DEFAULT_TIMEOUT_MINUTES = 5"

text \<open>
  \<open>parseInt(process.env.HELP_REQUEST_TIMEOUT_MINUTES || '', 10) || DEFAULT_TIMEOUT_MINUTES\<close>;
  \<open>env\<close> is the parsed variable, \<open>None\<close> when it is unset or not a number.
\<close>

definition timeoutMinutes :: "int option \<Rightarrow> int" where
  "timeoutMinutes env =
     (case env of None \<Rightarrow> DEFAULT_TIMEOUT_MINUTES
      | Some n \<Rightarrow> if n = 0 then DEFAULT_TIMEOUT_MINUTES else n)"

text \<open>The loop of \<open>startTimeoutWorker\<close>'s timer, writing to the store directly.\<close>

fun markEach ::
  "(string \<Rightarrow> bool) \<Rightarrow> int \<Rightarrow> helpRequest list \<Rightarrow> state \<Rightarrow> error option \<times> state" where
  "markEach fails now [] s = (None, s)"
| "markEach fails now (req # rest) s =
     (if fails (hrId req) then (Some StoreFailure, s)
      else
        (case prismaUpdate (hrId req) (expiredData now) (helpRequests s) of
           None \<Rightarrow> (Some RecordNotFound, s)
         | Some (updatedRequest, table) \<Rightarrow> markEach fails now rest (s\<lparr>helpRequests := table\<rparr>)))"

text \<open>One run of the timer of \<open>startTimeoutWorker\<close> (every minute).\<close>

definition timeoutWorkerTick ::
  "(string \<Rightarrow> bool) \<Rightarrow> int option \<Rightarrow> int \<Rightarrow> state \<Rightarrow> error option \<times> state" where
  "timeoutWorkerTick fails env now s =
     (let cutoff = now - timeoutMinutes env * 60 * 1000;
          staleRequests = filter (\<lambda>h. status h = Pending \<and> createdAt h < cutoff) (helpRequests s)
      in markEach fails now staleRequests s)"

section \<open>Runs of the system\<close>

text \<open>A process that has just started over empty tables.\<close>

definition emptyState :: state where
  "emptyState =
     \<lparr>helpRequests = [], knowledgeBaseEntries = [], knowledgeBase = [],
      supervisorResponseCache = [], sentSupervisorResponses = {}, responseCache = [],
      published = [], emitted = []\<rparr>"

text \<open>
  The operations that write a help request's status, with their arguments:
  \<open>resolveHelpRequest\<close>, the resolve route, \<open>markAsExpired\<close> and one run of each
  timeout worker.
\<close>

datatype operation =
    Resolve int bool string string string
  | ResolveByRoute int bool bool string string string
  | Expire int string
  | Sweep int
  | WorkerTick "int option" int

fun applyOperation :: "(string \<Rightarrow> bool) \<Rightarrow> operation \<Rightarrow> state \<Rightarrow> state" where
  "applyOperation fails (Resolve now sent newKbId i answer) s =
     snd (resolveHelpRequest now sent newKbId i answer s)"
| "applyOperation fails (ResolveByRoute now sent sentByRoute newKbId i answer) s =
     snd (resolveRoute now sent sentByRoute newKbId i answer s)"
| "applyOperation fails (Expire now i) s = snd (markAsExpired fails now i s)"
| "applyOperation fails (Sweep now) s = snd (checkAndProcessExpiredRequests fails now s)"
| "applyOperation fails (WorkerTick env now) s = snd (timeoutWorkerTick fails env now s)"

fun run :: "(string \<Rightarrow> bool) \<Rightarrow> operation list \<Rightarrow> state \<Rightarrow> state" where
  "run fails [] s = s"
| "run fails (operation # operations) s = run fails operations (applyOperation fails operation s)"


definition answersRequest :: "string \<Rightarrow> reply \<Rightarrow> bool" where
  "answersRequest i r = (case r of SupervisorAnswer j response \<Rightarrow> j = i | _ \<Rightarrow> False)"

text \<open>The rows that the pending-request check of \<open>handleMessage\<close> matches.\<close>

definition pendingFor :: "string \<Rightarrow> string \<Rightarrow> helpRequest list \<Rightarrow> helpRequest list" where
  "pendingFor c message table =
     filter (\<lambda>h. callerId h = createCallerIdWhereClause (formatCallerId c)
                 \<and> status h = Pending \<and> question h = message) table"

text \<open>The lookup as the specification words it: an exact match anywhere wins first.\<close>

definition exactFirstLookup :: "string \<Rightarrow> knowledgeBaseEntry list \<Rightarrow> string option" where
  "exactFirstLookup message entries =
     (case find (exactMatch message) entries of
        Some entry \<Rightarrow> Some (kbAnswer entry)
      | None \<Rightarrow> map_option kbAnswer (find (overlapMatch message) entries))"

text \<open>A row after the timeout write: unresolved, closed at \<open>now\<close>.\<close>

definition expired :: "int \<Rightarrow> helpRequest \<Rightarrow> helpRequest" where
  "expired now h = h\<lparr>status := Unresolved, resolvedAt := Some now\<rparr>"

text \<open>A row after \<open>resolveHelpRequest\<close> has written the answer and the link.\<close>

definition resolvedRow :: "int \<Rightarrow> string \<Rightarrow> string \<Rightarrow> helpRequest \<Rightarrow> helpRequest" where
  "resolvedRow now answer k h =
     h\<lparr>status := Resolved, resolvedAt := Some now, supervisorResponse := Some answer,
       knowledgeBaseEntryId := Some k\<rparr>"

text \<open>
  The status changes that the operations make, and how a row may differ after a run:
  its id stays, its status changes along an allowed transition, and a row whose status
  is the same is the same row.
\<close>

definition allowedTransition :: "helpRequestStatus \<Rightarrow> helpRequestStatus \<Rightarrow> bool" where
  "allowedTransition a b =
     (a = b \<or> (a = Pending \<and> b = Resolved) \<or> (a = Pending \<and> b = Unresolved)
      \<or> (a = Unresolved \<and> b = Resolved))"

definition evolves :: "helpRequest \<Rightarrow> helpRequest \<Rightarrow> bool" where
  "evolves h h' =
     (hrId h' = hrId h \<and> allowedTransition (status h) (status h')
      \<and> (status h' = status h \<longrightarrow> h' = h))"

text \<open>
  What one call of \<open>handleMessage\<close> by caller \<open>c\<close> does about request \<open>i\<close>: when the
  ledger has the pair it does not answer with that request and the ledger keeps the
  pair; when it answers with that request, the ledger has the pair afterwards.
\<close>

definition ledgerStep :: "string \<Rightarrow> string \<Rightarrow> state \<Rightarrow> reply \<Rightarrow> state \<Rightarrow> bool" where
  "ledgerStep c i s r s1 =
     ((hasSentSupervisorResponse (supervisorResponseCache s) c i \<longrightarrow>
         \<not> answersRequest i r \<and> hasSentSupervisorResponse (supervisorResponseCache s1) c i)
      \<and> (answersRequest i r \<longrightarrow> hasSentSupervisorResponse (supervisorResponseCache s1) c i))"

text \<open>
  The decisions of \<open>handleMessage\<close> by name: the \<open>gte\<close> filter on \<open>resolvedAt\<close>, a
  knowledge base that gives no answer (in memory and stored), a recent response found
  and not yet in the ledger, and the messages of its status-query branch.
\<close>

definition resolvedSince :: "int \<Rightarrow> helpRequest \<Rightarrow> bool" where
  "resolvedSince limit h = (case resolvedAt h of None \<Rightarrow> False | Some t \<Rightarrow> t \<ge> limit)"

definition knowledgeMiss :: "storeFaults \<Rightarrow> string \<Rightarrow> state \<Rightarrow> bool" where
  "knowledgeMiss faults message s =
     (memoryAnswer message s = None \<and> databaseAnswer faults message s = None)"

definition unsentRecent :: "storeFaults \<Rightarrow> int \<Rightarrow> string \<Rightarrow> state \<Rightarrow> bool" where
  "unsentRecent faults now c s =
     (\<not> recentLookupFails faults
      \<and> (case recentResponse now c s of
            None \<Rightarrow> False
          | Some h \<Rightarrow>
              (case supervisorResponse h of
                 None \<Rightarrow> False
               | Some response \<Rightarrow>
                   truthy response
                   \<and> \<not> hasSentSupervisorResponse (supervisorResponseCache s) c (hrId h))))"

definition isStatusQuery :: "string \<Rightarrow> bool" where
  "isStatusQuery message =
     (includesStr (toLowerCase message) ''has my supervisor responded''
      \<or> includesStr (toLowerCase message) ''what did my supervisor say''
      \<or> includesStr (toLowerCase message) ''any response from supervisor'')"

section \<open>Properties of the knowledge base lookup\<close>





text \<open>
  C6, as the code has it: \<open>findSimilarQuestion\<close> returns the answer of the first entry,
  in store order, whose question equals the message without regard to case or whose
  keyword overlap reaches half of the message's keywords, rounded up; it returns
  nothing when no entry qualifies. The exact match is tested entry by entry, in the
  same pass as the overlap.
\<close>

theorem findSimilarQuestion_first_qualifying:
  "findSimilarQuestion message entries = firstQualifying message entries"
  unfolding findSimilarQuestion_def firstQualifying_def
  by (induction entries) (simp_all add: Let_def exactMatch_def overlapMatch_def)

text \<open>
  C6 as stated fails: with an overlapping entry stored before the entry whose question
  is the message itself, the earlier entry's answer is returned, where a lookup that
  lets an exact match win first returns the later one.
\<close>

theorem findSimilarQuestion_exact_not_first:
  "findSimilarQuestion ''what are your hours''
     [\<lparr>kbId = ''k1'', kbQuestion = ''What hours today'', kbAnswer = ''Ask again today'',
        kbSource = ''supervisor'', kbCreatedAt = 0\<rparr>,
      \<lparr>kbId = ''k2'', kbQuestion = ''What are your hours'', kbAnswer = ''We are open 9-5'',
        kbSource = ''manual'', kbCreatedAt = 1\<rparr>] = Some ''Ask again today''
   \<and> exactFirstLookup ''what are your hours''
     [\<lparr>kbId = ''k1'', kbQuestion = ''What hours today'', kbAnswer = ''Ask again today'',
        kbSource = ''supervisor'', kbCreatedAt = 0\<rparr>,
      \<lparr>kbId = ''k2'', kbQuestion = ''What are your hours'', kbAnswer = ''We are open 9-5'',
        kbSource = ''manual'', kbCreatedAt = 1\<rparr>] = Some ''We are open 9-5''"
  by code_simp



section \<open>Properties of the store operations\<close>


lemma hrId_applyData: "hrId (applyData d h) = hrId h"
  by (simp add: applyData_def)

lemma findUnique_map:
  "(\<And>g. hrId (f g) = hrId g) \<Longrightarrow> findUnique (map f t) i = map_option f (findUnique t i)"
  unfolding findUnique_def by (induction t) simp_all

lemma findUnique_member: "findUnique t i = Some h \<Longrightarrow> h \<in> set t \<and> hrId h = i"
  unfolding findUnique_def by (induction t) (auto split: if_splits)

lemma findUnique_distinct:
  "distinct (map hrId t) \<Longrightarrow> h \<in> set t \<Longrightarrow> findUnique t (hrId h) = Some h"
  unfolding findUnique_def by (induction t) (auto simp: rev_image_eqI)

lemma findUnique_None: "findUnique t i = None \<longleftrightarrow> i \<notin> hrId ` set t"
  unfolding findUnique_def by (induction t) auto

lemma prismaUpdate_None: "prismaUpdate i d t = None \<longleftrightarrow> findUnique t i = None"
  by (simp add: prismaUpdate_def split: option.splits)

lemma prismaUpdate_findUnique:
  assumes "prismaUpdate j d t = Some (u, t')"
  shows "findUnique t' i = (if i = j then map_option (applyData d) (findUnique t i) else findUnique t i)"
proof -
  have t': "t' = map (\<lambda>g. if hrId g = j then applyData d g else g) t"
    using assms by (auto simp: prismaUpdate_def split: option.splits)
  have "findUnique t' i = map_option (\<lambda>g. if hrId g = j then applyData d g else g) (findUnique t i)"
    unfolding t' by (rule findUnique_map) (simp add: hrId_applyData)
  then show ?thesis
    by (cases "findUnique t i") (auto dest: findUnique_member)
qed

lemma prismaUpdate_ids:
  "prismaUpdate j d t = Some (u, t') \<Longrightarrow> map hrId t' = map hrId t"
  by (auto simp: prismaUpdate_def hrId_applyData split: option.splits)

lemma prismaUpdate_result:
  "prismaUpdate j d t = Some (u, t') \<Longrightarrow> \<exists>h. findUnique t j = Some h \<and> u = applyData d h"
  by (auto simp: prismaUpdate_def split: option.splits)

lemma helpRequests_emit [simp]: "helpRequests (emit e s) = helpRequests s"
  by (simp add: emit_def)

lemma helpRequests_emitSupervisorResponseSent [simp]:
  "helpRequests (emitSupervisorResponseSent now i c response roomName s) = helpRequests s"
  by (simp add: emitSupervisorResponseSent_def Let_def)

lemma helpRequests_handleHelpRequestResolved [simp]:
  "helpRequests (handleHelpRequestResolved now sent i c answer s) = helpRequests s"
  by (simp add: handleHelpRequestResolved_def Let_def)

lemma helpRequests_emitHelpRequestResolved [simp]:
  "helpRequests (emitHelpRequestResolved now sent i q c answer s) = helpRequests s"
  by (simp add: emitHelpRequestResolved_def)

lemma markAsExpired_table:
  assumes "markAsExpired fails now j s = (Inr r, s1)" and "findUnique (helpRequests s) i = Some h"
  shows "findUnique (helpRequests s1) i =
           Some (if i = j \<and> status h = Pending then applyData (expiredData now) h else h)"
proof (cases "findUnique (helpRequests s) j")
  case None
  with assms show ?thesis by (auto simp: markAsExpired_def)
next
  case (Some request)
  show ?thesis
  proof (cases "status request = Pending")
    case False
    with Some assms show ?thesis by (auto simp: markAsExpired_def)
  next
    case True
    with Some assms obtain u t' where
      up: "prismaUpdate j (expiredData now) (helpRequests s) = Some (u, t')" and
      s1: "helpRequests s1 = t'"
      by (auto simp: markAsExpired_def split: if_splits option.splits)
    show ?thesis
      using prismaUpdate_findUnique [OF up, of i] assms(2) Some True
      by (auto simp: s1)
  qed
qed

lemma markAsExpired_ids:
  "markAsExpired fails now j s = (r, s1) \<Longrightarrow> map hrId (helpRequests s1) = map hrId (helpRequests s)"
  by (auto simp: markAsExpired_def prismaUpdate_ids split: option.splits if_splits)

lemma markAsExpired_no_failure:
  "\<not> fails j \<Longrightarrow> \<exists>r. fst (markAsExpired fails now j s) = Inr r"
  by (auto simp: markAsExpired_def prismaUpdate_None split: option.splits)

lemma markAsExpired_failure:
  "fails j \<Longrightarrow> findUnique (helpRequests s) j = Some h \<Longrightarrow> status h = Pending \<Longrightarrow>
     markAsExpired fails now j s = (Inl StoreFailure, s)"
  by (simp add: markAsExpired_def)


lemma applyData_expiredData: "applyData (expiredData now) h = expired now h"
  by (simp add: applyData_def expiredData_def expired_def)

lemma expireEach_append:
  "expireEach fails now (xs @ ys) s =
     (case expireEach fails now xs s of
        (Some e, s1) \<Rightarrow> (Some e, s1)
      | (None, s1) \<Rightarrow> expireEach fails now ys s1)"
  by (induction xs arbitrary: s) (auto split: prod.splits sum.splits option.splits)

lemma expireEach_no_failure:
  "\<forall>r \<in> set rs. \<not> fails (hrId r) \<Longrightarrow> fst (expireEach fails now rs s) = None"
proof (induction rs arbitrary: s)
  case Nil
  show ?case by simp
next
  case (Cons r rs)
  obtain x s1 where m: "markAsExpired fails now (hrId r) s = (x, s1)"
    by (cases "markAsExpired fails now (hrId r) s")
  from Cons.prems have "\<not> fails (hrId r)" by simp
  with markAsExpired_no_failure [of fails "hrId r" now s] m obtain y where "x = Inr y"
    by auto
  with m Cons show ?case by simp
qed

lemma expireEach_ids:
  "map hrId (helpRequests (snd (expireEach fails now rs s))) = map hrId (helpRequests s)"
proof (induction rs arbitrary: s)
  case Nil
  show ?case by simp
next
  case (Cons r rs)
  obtain x s1 where m: "markAsExpired fails now (hrId r) s = (x, s1)"
    by (cases "markAsExpired fails now (hrId r) s")
  show ?case
    using m markAsExpired_ids [OF m] Cons.IH [of s1]
    by (cases x) simp_all
qed

lemma expireEach_table:
  assumes "\<forall>r \<in> set rs. \<not> fails (hrId r)" and "findUnique (helpRequests s) i = Some h"
  shows "findUnique (helpRequests (snd (expireEach fails now rs s))) i =
           Some (if i \<in> hrId ` set rs \<and> status h = Pending then expired now h else h)"
  using assms
proof (induction rs arbitrary: s h)
  case Nil
  then show ?case by simp
next
  case (Cons r rs)
  obtain x s1 where m: "markAsExpired fails now (hrId r) s = (x, s1)"
    by (cases "markAsExpired fails now (hrId r) s")
  from Cons.prems have nf: "\<not> fails (hrId r)" and nfs: "\<forall>r \<in> set rs. \<not> fails (hrId r)"
    by simp_all
  from nf markAsExpired_no_failure [of fails "hrId r" now s] m obtain y where x: "x = Inr y"
    by auto
  let ?h1 = "if i = hrId r \<and> status h = Pending then expired now h else h"
  have f1: "findUnique (helpRequests s1) i = Some ?h1"
    using markAsExpired_table [OF m [unfolded x] Cons.prems(2)]
    by (simp add: applyData_expiredData)
  have "findUnique (helpRequests (snd (expireEach fails now rs s1))) i =
          Some (if i \<in> hrId ` set rs \<and> status ?h1 = Pending then expired now ?h1 else ?h1)"
    by (rule Cons.IH [OF nfs f1])
  then show ?case
    using m x by (auto simp: expired_def)
qed

lemma markEach_append:
  "markEach fails now (xs @ ys) s =
     (case markEach fails now xs s of
        (Some e, s1) \<Rightarrow> (Some e, s1)
      | (None, s1) \<Rightarrow> markEach fails now ys s1)"
  by (induction xs arbitrary: s) (auto split: prod.splits option.splits)

lemma markEach_table:
  assumes "\<forall>r \<in> set rs. \<not> fails (hrId r)" and "hrId ` set rs \<subseteq> hrId ` set (helpRequests s)"
    and "findUnique (helpRequests s) i = Some h"
  shows "fst (markEach fails now rs s) = None \<and>
         findUnique (helpRequests (snd (markEach fails now rs s))) i =
           Some (if i \<in> hrId ` set rs then expired now h else h)"
  using assms
proof (induction rs arbitrary: s h)
  case Nil
  then show ?case by simp
next
  case (Cons r rs)
  from Cons.prems have nf: "\<not> fails (hrId r)" and nfs: "\<forall>r \<in> set rs. \<not> fails (hrId r)"
    by simp_all
  from Cons.prems(2) have "findUnique (helpRequests s) (hrId r) \<noteq> None"
    by (simp add: findUnique_None)
  then obtain u t' where up: "prismaUpdate (hrId r) (expiredData now) (helpRequests s) = Some (u, t')"
    using prismaUpdate_None [of "hrId r" "expiredData now" "helpRequests s"] by (cases "prismaUpdate (hrId r) (expiredData now) (helpRequests s)") auto
  let ?s1 = "s\<lparr>helpRequests := t'\<rparr>"
  let ?h1 = "if i = hrId r then expired now h else h"
  have f1: "findUnique (helpRequests ?s1) i = Some ?h1"
    using prismaUpdate_findUnique [OF up, of i] Cons.prems(3)
    by (auto simp: applyData_expiredData)
  have sub: "hrId ` set rs \<subseteq> hrId ` set (helpRequests ?s1)"
  proof -
    have "hrId ` set t' = hrId ` set (helpRequests s)"
      using prismaUpdate_ids [OF up] by (metis list.set_map)
    with Cons.prems(2) show ?thesis by simp
  qed
  have step: "markEach fails now (r # rs) s = markEach fails now rs ?s1"
    using nf up by simp
  show ?case
    unfolding step using Cons.IH [OF nfs sub f1]
    by (auto simp: expired_def)
qed

lemma map_of_filter_keep:
  "map_of al k = Some v \<Longrightarrow> P (k, v) \<Longrightarrow> map_of (filter P al) k = Some v"
  by (induction al) (auto split: if_splits)


section \<open>Properties of the response cache and of request creation\<close>

lemma cleanupResponseCache_keeps:
  "map_of cache c = Some (response, timestamp) \<Longrightarrow> now - timestamp \<le> 5 * 60 * 1000 \<Longrightarrow>
     map_of (cleanupResponseCache now cache) c = Some (response, timestamp)"
  unfolding cleanupResponseCache_def
  by (rule map_of_filter_keep) (simp_all add: CACHE_TTL_def)

text \<open>
  C7, as the code has it: \<open>POST /supervisor-response\<close> answers from the cache exactly
  when the caller has an entry whose age \<open>now - timestamp\<close> is at most the TTL of five
  minutes. An older entry is never a hit; an entry whose age is exactly the TTL still
  is one, and the cleanup timer, which deletes entries older than the TTL, keeps it.
\<close>

theorem supervisorResponseRoute_cache_hit:
  "(fst (supervisorResponseRoute now roomName c s) = FromCache response) =
     (truthy roomName \<and> truthy c \<and>
      (\<exists>timestamp. map_of (responseCache s) c = Some (response, timestamp)
          \<and> now - timestamp \<le> 5 * 60 * 1000))
   \<and> (map_of cache c = Some (response, written) \<and> now - written \<le> 5 * 60 * 1000 \<longrightarrow>
        map_of (cleanupResponseCache now cache) c = Some (response, written))"
proof
  show "(fst (supervisorResponseRoute now roomName c s) = FromCache response) =
     (truthy roomName \<and> truthy c \<and>
      (\<exists>timestamp. map_of (responseCache s) c = Some (response, timestamp)
          \<and> now - timestamp \<le> 5 * 60 * 1000))"
    unfolding supervisorResponseRoute_def freshCachedResponse_def CACHE_TTL_def
    by (auto simp: Let_def split: option.splits prod.splits)
  show "map_of cache c = Some (response, written) \<and> now - written \<le> 5 * 60 * 1000 \<longrightarrow>
        map_of (cleanupResponseCache now cache) c = Some (response, written)"
    by (simp add: cleanupResponseCache_keeps)
qed

theorem supervisorResponseRoute_cache_hit_witness:
  "fst (supervisorResponseRoute 300001 ''call-c1'' ''c1''
          (emptyState\<lparr>responseCache := [(''c1'', (''Yes, $80'', 0))]\<rparr>)) \<noteq> FromCache ''Yes, $80''
   \<and> fst (supervisorResponseRoute 299999 ''call-c1'' ''c1''
          (emptyState\<lparr>responseCache := [(''c1'', (''Yes, $80'', 0))]\<rparr>)) = FromCache ''Yes, $80''
   \<and> map_of (cleanupResponseCache 300000 [(''c1'', (''Yes, $80'', 0))]) ''c1''
       = Some (''Yes, $80'', 0)"
proof -
  let ?s = "emptyState\<lparr>responseCache := [(''c1'', (''Yes, $80'', 0))]\<rparr>"
  have a: "fst (supervisorResponseRoute 300001 ''call-c1'' ''c1'' ?s) \<noteq> FromCache ''Yes, $80''"
    using supervisorResponseRoute_cache_hit [of 300001 "''call-c1''" "''c1''" ?s "''Yes, $80''",
        THEN conjunct1]
    by (simp add: truthy_def emptyState_def)
  have b: "fst (supervisorResponseRoute 299999 ''call-c1'' ''c1'' ?s) = FromCache ''Yes, $80''"
    using supervisorResponseRoute_cache_hit [of 299999 "''call-c1''" "''c1''" ?s "''Yes, $80''",
        THEN conjunct1]
    by (simp add: truthy_def emptyState_def)
  have h: "map_of [(''c1'', (''Yes, $80'', 0::int))] ''c1'' = Some (''Yes, $80'', 0)
             \<and> (300000::int) - 0 \<le> 5 * 60 * 1000"
    by simp
  have c: "map_of (cleanupResponseCache 300000 [(''c1'', (''Yes, $80'', 0))]) ''c1''
       = Some (''Yes, $80'', 0)"
    using supervisorResponseRoute_cache_hit [of 300000 "''call-c1''" "''c1''" ?s "''Yes, $80''"
        "[(''c1'', (''Yes, $80'', 0))]" 0, THEN conjunct2, THEN mp, OF h] .
  from a b c show ?thesis by blast
qed

text \<open>
  C7 as stated fails at the boundary: an entry written at time 0 is returned from the
  cache at time 300000, when its age is exactly the TTL.
\<close>

theorem supervisorResponseRoute_hit_at_ttl:
  "fst (supervisorResponseRoute 300000 ''call-c1'' ''c1''
          (emptyState\<lparr>responseCache := [(''c1'', (''Yes, $80'', 0))]\<rparr>)) = FromCache ''Yes, $80''"
  by (simp add: supervisorResponseRoute_def freshCachedResponse_def CACHE_TTL_def truthy_def emptyState_def)

text \<open>
  C5, as the code has it: \<open>helpRequestModel.create\<close> (and \<open>createHelpRequest\<close>, which
  only trims the caller id first) always appends a new pending row with the given
  question and the trimmed caller id and emits \<open>HELP_REQUEST_CREATED\<close>; it makes no
  check for an existing pending row, so the pending rows with that question and
  caller become one more.
\<close>

theorem create_always_inserts:
  "helpRequests (snd (create newId now q c s)) = helpRequests s @ [fst (create newId now q c s)]
   \<and> fst (create newId now q c s) = createHelpRequestData newId now q c
   \<and> status (fst (create newId now q c s)) = Pending
   \<and> emitted (snd (create newId now q c s)) = emitted s @ [HelpRequestCreated newId q c]
   \<and> length (filter (\<lambda>h. question h = q \<and> callerId h = trim c \<and> status h = Pending)
         (helpRequests (snd (create newId now q c s))))
       = Suc (length (filter (\<lambda>h. question h = q \<and> callerId h = trim c \<and> status h = Pending)
         (helpRequests s)))
   \<and> createHelpRequest newId now q c s = create newId now q (trim c) s"
  by (simp add: create_def Let_def emit_def createHelpRequestData_def createHelpRequest_def)

theorem create_always_inserts_witness:
  "map status (helpRequests (snd (create ''r1'' 1 ''Do you do perms?'' ''c1'' emptyState)))
     = [Pending]"
proof -
  let ?x = "create ''r1'' 1 ''Do you do perms?'' ''c1'' emptyState"
  have "helpRequests (snd ?x) = helpRequests emptyState @ [fst ?x]"
    and "status (fst ?x) = Pending"
    using create_always_inserts [of "''r1''" 1 "''Do you do perms?''" "''c1''" emptyState]
    by blast+
  then show ?thesis
    by (simp add: emptyState_def)
qed

text \<open>
  C5 as stated fails: a second creation with the same question and caller, while the
  first request is still pending, inserts a second pending row and returns the new
  row, not the existing one.
\<close>

theorem create_duplicates_pending:
  "map (\<lambda>h. (hrId h, question h, callerId h, status h))
     (helpRequests (snd (createHelpRequest ''r2'' 2 ''Do you do perms?'' ''c1''
        (snd (createHelpRequest ''r1'' 1 ''Do you do perms?'' ''c1'' emptyState)))))
   = [(''r1'', ''Do you do perms?'', ''c1'', Pending), (''r2'', ''Do you do perms?'', ''c1'', Pending)]
   \<and> hrId (fst (createHelpRequest ''r2'' 2 ''Do you do perms?'' ''c1''
        (snd (createHelpRequest ''r1'' 1 ''Do you do perms?'' ''c1'' emptyState)))) = ''r2''"
  by (simp add: createHelpRequest_def create_def Let_def emit_def createHelpRequestData_def
        emptyState_def trim_def isSpace_def)

section \<open>Properties of the timeout workers\<close>

lemma id_in_filter:
  assumes "distinct (map hrId t)" and "h \<in> set t"
  shows "hrId h \<in> hrId ` set (filter P t) \<longleftrightarrow> P h"
proof
  assume "hrId h \<in> hrId ` set (filter P t)"
  then obtain g where g: "g \<in> set t" "P g" "hrId g = hrId h" by auto
  from assms g(1,3) have "g = h"
    by (meson distinct_map inj_onD)
  with g(2) show "P h" by simp
next
  assume "P h"
  with assms(2) show "hrId h \<in> hrId ` set (filter P t)" by auto
qed

lemma markEach_no_failure:
  assumes "\<forall>r \<in> set rs. \<not> fails (hrId r)" and "hrId ` set rs \<subseteq> hrId ` set (helpRequests s)"
  shows "fst (markEach fails now rs s) = None"
  using assms
proof (induction rs arbitrary: s)
  case Nil
  show ?case by simp
next
  case (Cons r rs)
  from Cons.prems have nf: "\<not> fails (hrId r)" and nfs: "\<forall>r \<in> set rs. \<not> fails (hrId r)"
    by simp_all
  from Cons.prems(2) have "findUnique (helpRequests s) (hrId r) \<noteq> None"
    by (simp add: findUnique_None)
  then obtain u t' where up: "prismaUpdate (hrId r) (expiredData now) (helpRequests s) = Some (u, t')"
    using prismaUpdate_None [of "hrId r" "expiredData now" "helpRequests s"]
    by (cases "prismaUpdate (hrId r) (expiredData now) (helpRequests s)") auto
  have "hrId ` set t' = hrId ` set (helpRequests s)"
    using prismaUpdate_ids [OF up] by (metis list.set_map)
  with Cons.prems(2) have sub: "hrId ` set rs \<subseteq> hrId ` set (helpRequests (s\<lparr>helpRequests := t'\<rparr>))"
    by simp
  show ?case
    using nf up Cons.IH [OF nfs sub] by simp
qed

text \<open>
  C8, as the code has it, for rows with distinct ids and a store that accepts every
  write: a run of \<open>checkAndProcessExpiredRequests\<close> at time \<open>now\<close> turns a pending
  request created at \<open>T\<close> into an unresolved one exactly when \<open>now - T\<close> is more than
  30 minutes, and leaves it as it is otherwise; a run of the timer of
  \<open>startTimeoutWorker\<close> does so exactly when \<open>now - T\<close> is more than its own threshold,
  \<open>HELP_REQUEST_TIMEOUT_MINUTES\<close> of the environment or 5 minutes.
\<close>

theorem sweep_expires_after_threshold:
  assumes "distinct (map hrId (helpRequests s))" and "h \<in> set (helpRequests s)"
    and "status h = Pending" and "\<forall>i. \<not> fails i"
  shows "findUnique (helpRequests (snd (checkAndProcessExpiredRequests fails now s))) (hrId h) =
           Some (if now - createdAt h > 30 * 60 * 1000
                 then h\<lparr>status := Unresolved, resolvedAt := Some now\<rparr> else h)
       \<and> findUnique (helpRequests (snd (timeoutWorkerTick fails env now s))) (hrId h) =
           Some (if now - createdAt h > timeoutMinutes env * 60 * 1000
                 then h\<lparr>status := Unresolved, resolvedAt := Some now\<rparr> else h)"
proof
  let ?P = "\<lambda>h. status h = Pending \<and> createdAt h < now - HELP_REQUEST_TIMEOUT_MINUTES * 60 * 1000"
  have f: "findUnique (helpRequests s) (hrId h) = Some h"
    using assms(1,2) by (rule findUnique_distinct)
  have nf: "\<forall>r \<in> set (filter ?P (helpRequests s)). \<not> fails (hrId r)"
    using assms(4) by simp
  have "findUnique (helpRequests (snd (expireEach fails now (filter ?P (helpRequests s)) s))) (hrId h) =
          Some (if hrId h \<in> hrId ` set (filter ?P (helpRequests s)) \<and> status h = Pending
                then expired now h else h)"
    by (rule expireEach_table [OF nf f])
  then show "findUnique (helpRequests (snd (checkAndProcessExpiredRequests fails now s))) (hrId h) =
           Some (if now - createdAt h > 30 * 60 * 1000
                 then h\<lparr>status := Unresolved, resolvedAt := Some now\<rparr> else h)"
    unfolding checkAndProcessExpiredRequests_def Let_def
      id_in_filter [OF assms(1,2), of ?P]
    using assms(3) by (simp add: expired_def HELP_REQUEST_TIMEOUT_MINUTES_def)
next
  let ?P = "\<lambda>h. status h = Pending \<and> createdAt h < now - timeoutMinutes env * 60 * 1000"
  have f: "findUnique (helpRequests s) (hrId h) = Some h"
    using assms(1,2) by (rule findUnique_distinct)
  have nf: "\<forall>r \<in> set (filter ?P (helpRequests s)). \<not> fails (hrId r)"
    using assms(4) by simp
  have sub: "hrId ` set (filter ?P (helpRequests s)) \<subseteq> hrId ` set (helpRequests s)"
    by auto
  have "findUnique (helpRequests (snd (markEach fails now (filter ?P (helpRequests s)) s))) (hrId h) =
          Some (if hrId h \<in> hrId ` set (filter ?P (helpRequests s)) then expired now h else h)"
    using markEach_table [OF nf sub f] by simp
  then show "findUnique (helpRequests (snd (timeoutWorkerTick fails env now s))) (hrId h) =
           Some (if now - createdAt h > timeoutMinutes env * 60 * 1000
                 then h\<lparr>status := Unresolved, resolvedAt := Some now\<rparr> else h)"
    unfolding timeoutWorkerTick_def Let_def
      id_in_filter [OF assms(1,2), of ?P]
    using assms(3) by (simp add: expired_def)
qed

theorem sweep_expires_after_threshold_witness:
  "map_option status (findUnique (helpRequests (snd (checkAndProcessExpiredRequests (\<lambda>i. False)
      (1000 + 30 * 60 * 1000 + 1)
      (snd (create ''r1'' 1000 ''Do you do perms?'' ''c1'' emptyState))))) ''r1'') = Some Unresolved"
proof -
  let ?s = "snd (create ''r1'' 1000 ''Do you do perms?'' ''c1'' emptyState)"
  let ?h = "createHelpRequestData ''r1'' 1000 ''Do you do perms?'' ''c1''"
  have t: "helpRequests ?s = [?h]"
    by (simp add: create_def Let_def emptyState_def)
  have h1: "distinct (map hrId (helpRequests ?s))" unfolding t by simp
  have h2: "?h \<in> set (helpRequests ?s)" unfolding t by simp
  have h3: "status ?h = Pending" by (simp add: createHelpRequestData_def)
  have h4: "\<forall>i. \<not> (\<lambda>i::string. False) i" by simp
  have i: "hrId ?h = ''r1''" and c: "createdAt ?h = 1000"
    by (simp_all add: createHelpRequestData_def)
  show ?thesis
    using sweep_expires_after_threshold [OF h1 h2 h3 h4, of "1000 + 30 * 60 * 1000 + 1" None]
    by (simp add: i c)
qed

text \<open>
  C8 as stated fails both ways: a sweep at exactly \<open>T\<close> plus 30 minutes leaves the
  request pending, and the timer of \<open>startTimeoutWorker\<close>, with its default threshold,
  expires it 5 minutes and one millisecond after \<open>T\<close>.
\<close>

theorem sweep_boundary_and_early_expiry:
  "map status (helpRequests (snd (checkAndProcessExpiredRequests (\<lambda>i. False) (1000 + 30 * 60 * 1000)
      (snd (create ''r1'' 1000 ''Do you do perms?'' ''c1'' emptyState))))) = [Pending]
   \<and> map status (helpRequests (snd (timeoutWorkerTick (\<lambda>i. False) None (1000 + 5 * 60 * 1000 + 1)
      (snd (create ''r1'' 1000 ''Do you do perms?'' ''c1'' emptyState))))) = [Unresolved]"
  by code_simp

text \<open>
  C9, as the code has it, for rows with distinct ids: when the store rejects the write
  for one stale request, the \<open>catch\<close> around the whole loop logs the error and the sweep
  ends there. Every stale request before the failing one has been expired (it is
  unresolved, closed at the time of the sweep); the failing request and every stale
  request after it are left pending, as they were, and so is every other row. This
  holds for \<open>checkAndProcessExpiredRequests\<close> and for the timer of
  \<open>startTimeoutWorker\<close>.
\<close>

theorem sweep_stops_at_failure:
  assumes "distinct (map hrId (helpRequests s))"
    and "\<forall>p \<in> set earlier. \<not> fails (hrId p)" and "fails (hrId r)"
  shows "(filter (\<lambda>h. status h = Pending \<and> createdAt h < now - 30 * 60 * 1000) (helpRequests s)
            = earlier @ r # later \<longrightarrow>
          checkAndProcessExpiredRequests fails now s
            = (Some StoreFailure, snd (expireEach fails now earlier s))
          \<and> (\<forall>h \<in> set (helpRequests s).
               findUnique (helpRequests (snd (checkAndProcessExpiredRequests fails now s))) (hrId h)
                 = Some (if h \<in> set earlier
                         then h\<lparr>status := Unresolved, resolvedAt := Some now\<rparr> else h))
          \<and> (\<forall>q \<in> set (r # later).
               findUnique (helpRequests (snd (checkAndProcessExpiredRequests fails now s))) (hrId q)
                 = Some q \<and> status q = Pending))
       \<and> (filter (\<lambda>h. status h = Pending \<and> createdAt h < now - timeoutMinutes env * 60 * 1000)
              (helpRequests s) = earlier @ r # later \<longrightarrow>
          timeoutWorkerTick fails env now s
            = (Some StoreFailure, snd (markEach fails now earlier s))
          \<and> (\<forall>h \<in> set (helpRequests s).
               findUnique (helpRequests (snd (timeoutWorkerTick fails env now s))) (hrId h)
                 = Some (if h \<in> set earlier
                         then h\<lparr>status := Unresolved, resolvedAt := Some now\<rparr> else h))
          \<and> (\<forall>q \<in> set (r # later).
               findUnique (helpRequests (snd (timeoutWorkerTick fails env now s))) (hrId q)
                 = Some q \<and> status q = Pending))"
proof (intro conjI impI)
  let ?P = "\<lambda>h. status h = Pending \<and> createdAt h < now - 30 * 60 * 1000"
  assume stale: "filter ?P (helpRequests s) = earlier @ r # later"
  define s1 where "s1 = snd (expireEach fails now earlier s)"
  have d: "distinct (map hrId (earlier @ r # later))"
    using assms(1) distinct_map_filter [of hrId "helpRequests s" ?P] by (simp only: stale)
  have mem: "q \<in> set (helpRequests s) \<and> status q = Pending"
    if "q \<in> set (earlier @ r # later)" for q
  proof -
    from that have "q \<in> set (filter ?P (helpRequests s))" by (simp only: stale)
    then show ?thesis by simp
  qed
  have ids: "hrId h \<in> hrId ` set earlier \<longleftrightarrow> h \<in> set earlier"
    if h: "h \<in> set (helpRequests s)" for h
  proof
    assume "hrId h \<in> hrId ` set earlier"
    then obtain p where p: "p \<in> set earlier" "hrId p = hrId h" by auto
    from mem [of p] p(1) have "p \<in> set (helpRequests s)" by simp
    with assms(1) h p(2) have "p = h" by (meson distinct_map inj_onD)
    with p(1) show "h \<in> set earlier" by simp
  qed simp
  have rows: "findUnique (helpRequests s1) (hrId h)
                = Some (if h \<in> set earlier then expired now h else h)"
    if h: "h \<in> set (helpRequests s)" for h
  proof -
    have f: "findUnique (helpRequests s) (hrId h) = Some h"
      using assms(1) h by (rule findUnique_distinct)
    from expireEach_table [OF assms(2) f, of now] ids [OF h] mem [of h]
    show ?thesis by (auto simp: s1_def)
  qed
  have notin: "q \<notin> set earlier" if "q \<in> set (r # later)" for q
    using d that by auto
  have keep: "findUnique (helpRequests s1) (hrId q) = Some q" if q: "q \<in> set (r # later)" for q
    using rows [of q] mem [of q] notin [OF q] q by auto
  have e: "expireEach fails now earlier s = (None, s1)"
    unfolding s1_def using expireEach_no_failure [OF assms(2), of now s] by (metis prod.collapse)
  have "markAsExpired fails now (hrId r) s1 = (Inl StoreFailure, s1)"
    using assms(3) keep [of r] mem [of r] by (simp add: markAsExpired_failure)
  then have "expireEach fails now (r # later) s1 = (Some StoreFailure, s1)"
    by simp
  then have "expireEach fails now (earlier @ r # later) s = (Some StoreFailure, s1)"
    by (simp add: expireEach_append e)
  then have run: "checkAndProcessExpiredRequests fails now s = (Some StoreFailure, s1)"
    unfolding checkAndProcessExpiredRequests_def Let_def HELP_REQUEST_TIMEOUT_MINUTES_def
    using stale by simp
  show "checkAndProcessExpiredRequests fails now s
          = (Some StoreFailure, snd (expireEach fails now earlier s))"
    unfolding run by (simp add: s1_def)
  show "\<forall>h \<in> set (helpRequests s).
          findUnique (helpRequests (snd (checkAndProcessExpiredRequests fails now s))) (hrId h)
            = Some (if h \<in> set earlier
                    then h\<lparr>status := Unresolved, resolvedAt := Some now\<rparr> else h)"
    unfolding run using rows by (simp add: expired_def)
  show "\<forall>q \<in> set (r # later).
          findUnique (helpRequests (snd (checkAndProcessExpiredRequests fails now s))) (hrId q)
            = Some q \<and> status q = Pending"
    unfolding run using keep mem by simp
next
  let ?P = "\<lambda>h. status h = Pending \<and> createdAt h < now - timeoutMinutes env * 60 * 1000"
  assume stale: "filter ?P (helpRequests s) = earlier @ r # later"
  define s1 where "s1 = snd (markEach fails now earlier s)"
  have d: "distinct (map hrId (earlier @ r # later))"
    using assms(1) distinct_map_filter [of hrId "helpRequests s" ?P] by (simp only: stale)
  have mem: "q \<in> set (helpRequests s) \<and> status q = Pending"
    if "q \<in> set (earlier @ r # later)" for q
  proof -
    from that have "q \<in> set (filter ?P (helpRequests s))" by (simp only: stale)
    then show ?thesis by simp
  qed
  have sub: "hrId ` set earlier \<subseteq> hrId ` set (helpRequests s)"
    using mem by auto
  have ids: "hrId h \<in> hrId ` set earlier \<longleftrightarrow> h \<in> set earlier"
    if h: "h \<in> set (helpRequests s)" for h
  proof
    assume "hrId h \<in> hrId ` set earlier"
    then obtain p where p: "p \<in> set earlier" "hrId p = hrId h" by auto
    from mem [of p] p(1) have "p \<in> set (helpRequests s)" by simp
    with assms(1) h p(2) have "p = h" by (meson distinct_map inj_onD)
    with p(1) show "h \<in> set earlier" by simp
  qed simp
  have rows: "findUnique (helpRequests s1) (hrId h)
                = Some (if h \<in> set earlier then expired now h else h)"
    if h: "h \<in> set (helpRequests s)" for h
  proof -
    have f: "findUnique (helpRequests s) (hrId h) = Some h"
      using assms(1) h by (rule findUnique_distinct)
    from markEach_table [OF assms(2) sub f, of now] ids [OF h]
    show ?thesis by (auto simp: s1_def)
  qed
  have notin: "q \<notin> set earlier" if "q \<in> set (r # later)" for q
    using d that by auto
  have keep: "findUnique (helpRequests s1) (hrId q) = Some q" if q: "q \<in> set (r # later)" for q
    using rows [of q] mem [of q] notin [OF q] q by auto
  have e: "markEach fails now earlier s = (None, s1)"
    unfolding s1_def using markEach_no_failure [OF assms(2) sub, of now] by (metis prod.collapse)
  have "markEach fails now (r # later) s1 = (Some StoreFailure, s1)"
    using assms(3) by simp
  then have "markEach fails now (earlier @ r # later) s = (Some StoreFailure, s1)"
    by (simp add: markEach_append e)
  then have run: "timeoutWorkerTick fails env now s = (Some StoreFailure, s1)"
    unfolding timeoutWorkerTick_def Let_def using stale by simp
  show "timeoutWorkerTick fails env now s = (Some StoreFailure, snd (markEach fails now earlier s))"
    unfolding run by (simp add: s1_def)
  show "\<forall>h \<in> set (helpRequests s).
          findUnique (helpRequests (snd (timeoutWorkerTick fails env now s))) (hrId h)
            = Some (if h \<in> set earlier
                    then h\<lparr>status := Unresolved, resolvedAt := Some now\<rparr> else h)"
    unfolding run using rows by (simp add: expired_def)
  show "\<forall>q \<in> set (r # later).
          findUnique (helpRequests (snd (timeoutWorkerTick fails env now s))) (hrId q)
            = Some q \<and> status q = Pending"
    unfolding run using keep mem by simp
qed

theorem sweep_stops_at_failure_witness:
  "map_option status (findUnique (helpRequests (snd (checkAndProcessExpiredRequests
      (\<lambda>i. i = ''r2'') 2000000
      (snd (create ''r3'' 3 ''Do you colour?'' ''c1''
        (snd (create ''r2'' 2 ''Do you cut?'' ''c1''
          (snd (create ''r1'' 1 ''Do you do perms?'' ''c1'' emptyState)))))))))
      ''r1'') = Some Unresolved
   \<and> map_option status (findUnique (helpRequests (snd (checkAndProcessExpiredRequests
      (\<lambda>i. i = ''r2'') 2000000
      (snd (create ''r3'' 3 ''Do you colour?'' ''c1''
        (snd (create ''r2'' 2 ''Do you cut?'' ''c1''
          (snd (create ''r1'' 1 ''Do you do perms?'' ''c1'' emptyState)))))))))
      ''r2'') = Some Pending
   \<and> map_option status (findUnique (helpRequests (snd (checkAndProcessExpiredRequests
      (\<lambda>i. i = ''r2'') 2000000
      (snd (create ''r3'' 3 ''Do you colour?'' ''c1''
        (snd (create ''r2'' 2 ''Do you cut?'' ''c1''
          (snd (create ''r1'' 1 ''Do you do perms?'' ''c1'' emptyState)))))))))
      ''r3'') = Some Pending
   \<and> map_option status (findUnique (helpRequests (snd (timeoutWorkerTick
      (\<lambda>i. i = ''r2'') None 2000000
      (snd (create ''r3'' 3 ''Do you colour?'' ''c1''
        (snd (create ''r2'' 2 ''Do you cut?'' ''c1''
          (snd (create ''r1'' 1 ''Do you do perms?'' ''c1'' emptyState)))))))))
      ''r1'') = Some Unresolved
   \<and> map_option status (findUnique (helpRequests (snd (timeoutWorkerTick
      (\<lambda>i. i = ''r2'') None 2000000
      (snd (create ''r3'' 3 ''Do you colour?'' ''c1''
        (snd (create ''r2'' 2 ''Do you cut?'' ''c1''
          (snd (create ''r1'' 1 ''Do you do perms?'' ''c1'' emptyState)))))))))
      ''r3'') = Some Pending"
proof -
  let ?s = "snd (create ''r3'' 3 ''Do you colour?'' ''c1''
        (snd (create ''r2'' 2 ''Do you cut?'' ''c1''
          (snd (create ''r1'' 1 ''Do you do perms?'' ''c1'' emptyState)))))"
  let ?r1 = "createHelpRequestData ''r1'' 1 ''Do you do perms?'' ''c1''"
  let ?r2 = "createHelpRequestData ''r2'' 2 ''Do you cut?'' ''c1''"
  let ?r3 = "createHelpRequestData ''r3'' 3 ''Do you colour?'' ''c1''"
  let ?sweep = "snd (checkAndProcessExpiredRequests (\<lambda>i. i = ''r2'') 2000000 ?s)"
  let ?tick = "snd (timeoutWorkerTick (\<lambda>i. i = ''r2'') None 2000000 ?s)"
  have t: "helpRequests ?s = [?r1, ?r2, ?r3]"
    by (simp add: create_def Let_def emptyState_def)
  have ids: "hrId ?r1 = ''r1''" "hrId ?r2 = ''r2''" "hrId ?r3 = ''r3''"
    by (simp_all add: createHelpRequestData_def)
  have ne: "?r2 \<noteq> ?r1" "?r3 \<noteq> ?r1"
    by (simp_all add: createHelpRequestData_def)
  have h1: "distinct (map hrId (helpRequests ?s))"
    unfolding t by (simp add: ids)
  have h2: "\<forall>p \<in> set [?r1]. \<not> (\<lambda>i. i = ''r2'') (hrId p)"
    by (simp add: ids)
  have h3: "(\<lambda>i. i = ''r2'') (hrId ?r2)"
    by (simp add: ids)
  have h4: "filter (\<lambda>h. status h = Pending \<and> createdAt h < 2000000 - 30 * 60 * 1000)
              (helpRequests ?s) = [?r1] @ ?r2 # [?r3]"
    unfolding t by (simp add: createHelpRequestData_def)
  have h5: "filter (\<lambda>h. status h = Pending \<and> createdAt h < 2000000 - timeoutMinutes None * 60 * 1000)
              (helpRequests ?s) = [?r1] @ ?r2 # [?r3]"
    unfolding t by (simp add: createHelpRequestData_def timeoutMinutes_def DEFAULT_TIMEOUT_MINUTES_def)
  note inst = sweep_stops_at_failure [OF h1 h2 h3, of 2000000 "[?r3]" None]
  from inst [THEN conjunct1, THEN mp, OF h4]
  have a: "\<forall>h \<in> set (helpRequests ?s). findUnique (helpRequests ?sweep) (hrId h)
             = Some (if h \<in> set [?r1]
                     then h\<lparr>status := Unresolved, resolvedAt := Some 2000000\<rparr> else h)"
    by blast
  from inst [THEN conjunct2, THEN mp, OF h5]
  have b: "\<forall>h \<in> set (helpRequests ?s). findUnique (helpRequests ?tick) (hrId h)
             = Some (if h \<in> set [?r1]
                     then h\<lparr>status := Unresolved, resolvedAt := Some 2000000\<rparr> else h)"
    by blast
  have st: "status ?r2 = Pending" "status ?r3 = Pending"
    by (simp_all add: createHelpRequestData_def)
  from a have a1: "map_option status (findUnique (helpRequests ?sweep) ''r1'') = Some Unresolved"
    and a2: "map_option status (findUnique (helpRequests ?sweep) ''r2'') = Some Pending"
    and a3: "map_option status (findUnique (helpRequests ?sweep) ''r3'') = Some Pending"
    unfolding t using ids ne st by simp_all
  from b have b1: "map_option status (findUnique (helpRequests ?tick) ''r1'') = Some Unresolved"
    and b3: "map_option status (findUnique (helpRequests ?tick) ''r3'') = Some Pending"
    unfolding t using ids ne st by simp_all
  from a1 a2 a3 b1 b3 show ?thesis by blast
qed

text \<open>
  C9 as stated fails: with two stale pending requests and a store that rejects the
  write for the first, the second is not expired by that sweep, while it is when no
  write fails.
\<close>

theorem sweep_aborts_on_first_failure:
  "map status (helpRequests (snd (checkAndProcessExpiredRequests (\<lambda>i. i = ''r1'') 2000000
      (snd (create ''r2'' 2 ''Do you cut?'' ''c1''
        (snd (create ''r1'' 1 ''Do you do perms?'' ''c1'' emptyState))))))) = [Pending, Pending]
   \<and> fst (checkAndProcessExpiredRequests (\<lambda>i. i = ''r1'') 2000000
      (snd (create ''r2'' 2 ''Do you cut?'' ''c1''
        (snd (create ''r1'' 1 ''Do you do perms?'' ''c1'' emptyState))))) = Some StoreFailure
   \<and> map status (helpRequests (snd (checkAndProcessExpiredRequests (\<lambda>i. False) 2000000
      (snd (create ''r2'' 2 ''Do you cut?'' ''c1''
        (snd (create ''r1'' 1 ''Do you do perms?'' ''c1'' emptyState))))))) = [Unresolved, Unresolved]"
  by code_simp

section \<open>Properties of resolving and expiring\<close>


lemma update_result:
  "fst (update now sent j d s) =
     (case prismaUpdate j d (helpRequests s) of
        None \<Rightarrow> Inl RecordNotFound
      | Some (u, t') \<Rightarrow> Inr u)"
  by (simp add: update_def Let_def split: option.splits prod.splits)

lemma update_table:
  "helpRequests (snd (update now sent j d s)) =
     (case prismaUpdate j d (helpRequests s) of None \<Rightarrow> helpRequests s | Some (u, t') \<Rightarrow> t')"
  by (simp add: update_def Let_def split: option.splits prod.splits)

lemma update_findUnique:
  assumes "findUnique (helpRequests s) i = Some h"
  shows "findUnique (helpRequests (snd (update now sent j d s))) i =
           Some (if i = j then applyData d h else h)"
proof (cases "prismaUpdate j d (helpRequests s)")
  case None
  then have "findUnique (helpRequests s) j = None" by (simp add: prismaUpdate_None)
  with assms None show ?thesis by (auto simp: update_table)
next
  case (Some p)
  obtain u t' where p: "p = (u, t')" by (cases p)
  show ?thesis
    using prismaUpdate_findUnique [OF Some [unfolded p], of i] assms
    by (auto simp: update_table Some p)
qed

lemma update_ok:
  assumes "findUnique (helpRequests s) j = Some h"
  shows "fst (update now sent j d s) = Inr (applyData d h)"
proof -
  have "prismaUpdate j d (helpRequests s) \<noteq> None"
    using assms by (simp add: prismaUpdate_None)
  then obtain u t' where up: "prismaUpdate j d (helpRequests s) = Some (u, t')" by auto
  from prismaUpdate_result [OF up] assms have "u = applyData d h" by simp
  then show ?thesis
    using update_result [of now sent j d s] up by simp
qed

lemma update_ids:
  "map hrId (helpRequests (snd (update now sent j d s))) = map hrId (helpRequests s)"
  by (auto simp: update_table prismaUpdate_ids split: option.splits)

lemma applyData_link_resolved:
  "applyData (linkData k) (applyData (resolvedData now answer) h) = resolvedRow now answer k h"
  by (simp add: applyData_def linkData_def resolvedData_def resolvedRow_def)

lemma resolveHelpRequest_fresh:
  assumes "j \<notin> sentSupervisorResponses s" and "findUnique (helpRequests s) j = Some request"
    and "status request \<noteq> Resolved"
  shows "\<exists>s1 s2. update now sent j (resolvedData now answer) s = (Inr (applyData (resolvedData now answer) request), s1)
           \<and> s2 = s1\<lparr>knowledgeBaseEntries := knowledgeBaseEntries s1 @
                  [\<lparr>kbId = k, kbQuestion = question request, kbAnswer = answer,
                    kbSource = ''supervisor'', kbCreatedAt = now\<rparr>]\<rparr>
           \<and> resolveHelpRequest now sent k j answer s =
               (Inr (Updated (applyData (resolvedData now answer) request)),
                snd (update now sent j (linkData k) s2))"
proof -
  let ?u = "applyData (resolvedData now answer) request"
  obtain x s1 where u1: "update now sent j (resolvedData now answer) s = (x, s1)"
    by (cases "update now sent j (resolvedData now answer) s")
  from update_ok [OF assms(2), where now = now and sent = sent and d = "resolvedData now answer"] u1
  have x: "x = Inr ?u"
    by simp
  let ?s2 = "s1\<lparr>knowledgeBaseEntries := knowledgeBaseEntries s1 @
                  [\<lparr>kbId = k, kbQuestion = question request, kbAnswer = answer,
                    kbSource = ''supervisor'', kbCreatedAt = now\<rparr>]\<rparr>"
  have f1: "findUnique (helpRequests s1) j = Some ?u"
    using update_findUnique [OF assms(2), where now = now and sent = sent and j = j
        and d = "resolvedData now answer"] u1 by simp
  then have f2: "findUnique (helpRequests ?s2) j = Some ?u" by simp
  obtain y s3 where u2: "update now sent j (linkData k) ?s2 = (y, s3)"
    by (cases "update now sent j (linkData k) ?s2")
  from update_ok [OF f2, where now = now and sent = sent and d = "linkData k"] u2
  obtain l where y: "y = Inr l"
    by simp
  have "resolveHelpRequest now sent k j answer s = (Inr (Updated ?u), s3)"
    using assms u1 x u2 y
    by (simp add: resolveHelpRequest_def getById_def Let_def)
  with u1 x u2 show ?thesis by simp
qed

lemma resolveHelpRequest_findUnique:
  assumes "findUnique (helpRequests s) i = Some h"
  shows "findUnique (helpRequests (snd (resolveHelpRequest now sent k j answer s))) i =
           Some (if i = j \<and> j \<notin> sentSupervisorResponses s \<and> status h \<noteq> Resolved
                 then resolvedRow now answer k h else h)"
proof (cases "j \<in> sentSupervisorResponses s")
  case True
  with assms show ?thesis by (simp add: resolveHelpRequest_def)
next
  case notsent: False
  show ?thesis
  proof (cases "findUnique (helpRequests s) j")
    case None
    with assms notsent show ?thesis
      by (auto simp: resolveHelpRequest_def getById_def)
  next
    case (Some request)
    show ?thesis
    proof (cases "status request = Resolved")
      case True
      with assms notsent Some show ?thesis
        by (auto simp: resolveHelpRequest_def getById_def)
    next
      case False
      from resolveHelpRequest_fresh [OF notsent Some False, of now sent answer k]
      obtain s1 where u1: "update now sent j (resolvedData now answer) s
                             = (Inr (applyData (resolvedData now answer) request), s1)"
        and r: "resolveHelpRequest now sent k j answer s =
               (Inr (Updated (applyData (resolvedData now answer) request)),
                snd (update now sent j (linkData k)
                  (s1\<lparr>knowledgeBaseEntries := knowledgeBaseEntries s1 @
                  [\<lparr>kbId = k, kbQuestion = question request, kbAnswer = answer,
                    kbSource = ''supervisor'', kbCreatedAt = now\<rparr>]\<rparr>)))"
        by auto
      let ?h1 = "if i = j then applyData (resolvedData now answer) h else h"
      have f1: "findUnique (helpRequests s1) i = Some ?h1"
        using update_findUnique [OF assms, where now = now and sent = sent and j = j
            and d = "resolvedData now answer"] u1 by simp
      let ?s2 = "s1\<lparr>knowledgeBaseEntries := knowledgeBaseEntries s1 @
                  [\<lparr>kbId = k, kbQuestion = question request, kbAnswer = answer,
                    kbSource = ''supervisor'', kbCreatedAt = now\<rparr>]\<rparr>"
      have f2: "findUnique (helpRequests ?s2) i = Some ?h1" using f1 by simp
      have "findUnique (helpRequests (snd (update now sent j (linkData k) ?s2))) i =
              Some (if i = j then applyData (linkData k) ?h1 else ?h1)"
        by (rule update_findUnique [OF f2])
      then show ?thesis
        unfolding r using notsent Some False assms
        by (auto simp: applyData_link_resolved)
    qed
  qed
qed

lemma update_ids_pair:
  "update now sent j d s = (x, s1) \<Longrightarrow> map hrId (helpRequests s1) = map hrId (helpRequests s)"
  using update_ids [of now sent j d s] by simp

lemma resolveHelpRequest_ids:
  "map hrId (helpRequests (snd (resolveHelpRequest now sent k j answer s))) = map hrId (helpRequests s)"
  by (auto simp: resolveHelpRequest_def getById_def Let_def
      split: option.splits prod.splits sum.splits dest!: update_ids_pair)

lemma evolves_refl: "evolves h h"
  by (simp add: evolves_def allowedTransition_def)

lemma evolves_trans: "evolves a b \<Longrightarrow> evolves b c \<Longrightarrow> evolves a c"
  unfolding evolves_def allowedTransition_def
  by (cases "status a"; cases "status b"; cases "status c") auto

lemma evolves_expired: "status h = Pending \<Longrightarrow> evolves h (expired now h)"
  by (simp add: evolves_def allowedTransition_def expired_def)

lemma evolves_resolvedRow: "status h \<noteq> Resolved \<Longrightarrow> evolves h (resolvedRow now answer k h)"
  by (cases "status h") (simp_all add: evolves_def allowedTransition_def resolvedRow_def)

lemma resolveHelpRequest_evolves:
  assumes "findUnique (helpRequests s) i = Some h"
  shows "\<exists>h'. findUnique (helpRequests (snd (resolveHelpRequest now sent k j answer s))) i = Some h'
           \<and> evolves h h'"
  using resolveHelpRequest_findUnique [OF assms, of now sent k j answer]
  by (auto simp: evolves_refl evolves_resolvedRow)

lemma resolveRoute_table:
  "helpRequests (snd (resolveRoute now sent sentByRoute k j answer s)) =
     (if truthy answer
         \<and> \<not> (case findUnique (helpRequests s) j of None \<Rightarrow> False | Some r \<Rightarrow> status r = Resolved)
      then helpRequests (snd (resolveHelpRequest now sent k j answer s))
      else helpRequests s)"
  by (simp add: resolveRoute_def Let_def split: option.splits prod.splits sum.splits)

lemma resolveRoute_evolves:
  assumes "findUnique (helpRequests s) i = Some h"
  shows "\<exists>h'. findUnique (helpRequests (snd (resolveRoute now sent sentByRoute k j answer s))) i = Some h'
           \<and> evolves h h'"
  using resolveHelpRequest_evolves [OF assms, of now sent k j answer] assms
  by (auto simp: resolveRoute_table evolves_refl)

lemma markAsExpired_evolves:
  assumes "findUnique (helpRequests s) i = Some h"
  shows "\<exists>h'. findUnique (helpRequests (snd (markAsExpired fails now j s))) i = Some h'
           \<and> evolves h h'"
proof -
  obtain x s1 where m: "markAsExpired fails now j s = (x, s1)"
    by (cases "markAsExpired fails now j s")
  show ?thesis
  proof (cases x)
    case (Inl e)
    with m have "s1 = s"
      by (auto simp: markAsExpired_def split: option.splits if_splits)
    with m assms show ?thesis by (auto simp: evolves_refl)
  next
    case (Inr r)
    from markAsExpired_table [OF m [unfolded Inr] assms] m show ?thesis
      by (auto simp: applyData_expiredData evolves_refl evolves_expired)
  qed
qed

lemma expireEach_evolves:
  assumes "findUnique (helpRequests s) i = Some h"
  shows "\<exists>h'. findUnique (helpRequests (snd (expireEach fails now rs s))) i = Some h'
           \<and> evolves h h'"
  using assms
proof (induction rs arbitrary: s h)
  case Nil
  then show ?case by (auto simp: evolves_refl)
next
  case (Cons r rs)
  obtain x s1 where m: "markAsExpired fails now (hrId r) s = (x, s1)"
    by (cases "markAsExpired fails now (hrId r) s")
  from markAsExpired_evolves [OF Cons.prems, of fails now "hrId r"] m
  obtain h1 where h1: "findUnique (helpRequests s1) i = Some h1" "evolves h h1"
    by auto
  show ?case
  proof (cases x)
    case (Inl e)
    with m h1 show ?thesis by auto
  next
    case (Inr y)
    from Cons.IH [OF h1(1)] obtain h' where
      "findUnique (helpRequests (snd (expireEach fails now rs s1))) i = Some h'" "evolves h1 h'"
      by auto
    with m Inr h1(2) show ?thesis
      by (auto intro: evolves_trans)
  qed
qed

lemma markEach_evolves:
  assumes "\<forall>r \<in> set rs. \<forall>g. findUnique (helpRequests s) (hrId r) = Some g \<longrightarrow> status g = Pending"
    and "distinct (map hrId rs)" and "findUnique (helpRequests s) i = Some h"
  shows "\<exists>h'. findUnique (helpRequests (snd (markEach fails now rs s))) i = Some h'
           \<and> evolves h h'"
  using assms
proof (induction rs arbitrary: s h)
  case Nil
  then show ?case by (auto simp: evolves_refl)
next
  case (Cons r rs)
  show ?case
  proof (cases "fails (hrId r)")
    case True
    with Cons.prems(3) show ?thesis by (auto simp: evolves_refl)
  next
    case nf: False
    show ?thesis
    proof (cases "prismaUpdate (hrId r) (expiredData now) (helpRequests s)")
      case None
      with nf Cons.prems(3) show ?thesis by (auto simp: evolves_refl)
    next
      case (Some p)
      obtain u t' where p: "p = (u, t')" by (cases p)
      note up = Some [unfolded p]
      let ?s1 = "s\<lparr>helpRequests := t'\<rparr>"
      let ?h1 = "if i = hrId r then expired now h else h"
      have f1: "findUnique (helpRequests ?s1) i = Some ?h1"
        using prismaUpdate_findUnique [OF up, of i] Cons.prems(3)
        by (auto simp: applyData_expiredData)
      have e1: "evolves h ?h1"
        using Cons.prems(1,3) by (auto simp: evolves_refl evolves_expired)
      have inv: "\<forall>r' \<in> set rs. \<forall>g. findUnique (helpRequests ?s1) (hrId r') = Some g \<longrightarrow> status g = Pending"
      proof (intro ballI allI impI)
        fix r' g assume r': "r' \<in> set rs" and g: "findUnique (helpRequests ?s1) (hrId r') = Some g"
        from Cons.prems(2) r' have "hrId r' \<noteq> hrId r" by (auto simp: image_iff)
        with prismaUpdate_findUnique [OF up, of "hrId r'"] g
        have "findUnique (helpRequests s) (hrId r') = Some g" by simp
        with Cons.prems(1) r' show "status g = Pending" by auto
      qed
      from Cons.prems(2) have d: "distinct (map hrId rs)" by simp
      from Cons.IH [OF inv d f1] obtain h' where
        "findUnique (helpRequests (snd (markEach fails now rs ?s1))) i = Some h'" "evolves ?h1 h'"
        by auto
      with nf up e1 show ?thesis
        by (auto intro: evolves_trans)
    qed
  qed
qed

lemma markEach_ids:
  "map hrId (helpRequests (snd (markEach fails now rs s))) = map hrId (helpRequests s)"
proof (induction rs arbitrary: s)
  case Nil
  show ?case by simp
next
  case (Cons r rs)
  show ?case
  proof (cases "prismaUpdate (hrId r) (expiredData now) (helpRequests s)")
    case None
    then show ?thesis by simp
  next
    case (Some p)
    obtain u t' where p: "p = (u, t')" by (cases p)
    show ?thesis
      using Cons.IH [of "s\<lparr>helpRequests := t'\<rparr>"] prismaUpdate_ids [OF Some [unfolded p]]
      by (simp add: Some p)
  qed
qed

lemma timeoutWorkerTick_evolves:
  assumes "distinct (map hrId (helpRequests s))" and "findUnique (helpRequests s) i = Some h"
  shows "\<exists>h'. findUnique (helpRequests (snd (timeoutWorkerTick fails env now s))) i = Some h'
           \<and> evolves h h'"
proof -
  let ?P = "\<lambda>h. status h = Pending \<and> createdAt h < now - timeoutMinutes env * 60 * 1000"
  have inv: "\<forall>r \<in> set (filter ?P (helpRequests s)).
               \<forall>g. findUnique (helpRequests s) (hrId r) = Some g \<longrightarrow> status g = Pending"
    using assms(1) by (auto simp: findUnique_distinct)
  have d: "distinct (map hrId (filter ?P (helpRequests s)))"
    using assms(1) by (rule distinct_map_filter)
  show ?thesis
    unfolding timeoutWorkerTick_def Let_def
    by (rule markEach_evolves [OF inv d assms(2)])
qed

lemma applyOperation_evolves:
  assumes "distinct (map hrId (helpRequests s))" and "findUnique (helpRequests s) i = Some h"
  shows "\<exists>h'. findUnique (helpRequests (applyOperation fails operation s)) i = Some h'
           \<and> evolves h h'"
proof (cases operation)
  case (Resolve now sent k j answer)
  then show ?thesis using resolveHelpRequest_evolves [OF assms(2)] by simp
next
  case (ResolveByRoute now sent sentByRoute k j answer)
  then show ?thesis using resolveRoute_evolves [OF assms(2)] by simp
next
  case (Expire now j)
  then show ?thesis using markAsExpired_evolves [OF assms(2)] by simp
next
  case (Sweep now)
  then show ?thesis
    using expireEach_evolves [OF assms(2)] by (simp add: checkAndProcessExpiredRequests_def)
next
  case (WorkerTick env now)
  then show ?thesis using timeoutWorkerTick_evolves [OF assms] by simp
qed

lemma applyOperation_ids:
  "map hrId (helpRequests (applyOperation fails operation s)) = map hrId (helpRequests s)"
proof (cases operation)
  case (Resolve now sent k j answer)
  then show ?thesis by (simp add: resolveHelpRequest_ids)
next
  case (ResolveByRoute now sent sentByRoute k j answer)
  then show ?thesis by (simp add: resolveRoute_table resolveHelpRequest_ids)
next
  case (Expire now j)
  then show ?thesis
    using markAsExpired_ids [of fails now j s "fst (markAsExpired fails now j s)"
        "snd (markAsExpired fails now j s)"] by simp
next
  case (Sweep now)
  then show ?thesis by (simp add: checkAndProcessExpiredRequests_def expireEach_ids)
next
  case (WorkerTick env now)
  then show ?thesis by (simp add: timeoutWorkerTick_def markEach_ids)
qed

lemma resolveHelpRequest_Updated:
  assumes "resolveHelpRequest now sent k i answer s = (Inr (Updated u), s1)"
  shows "\<exists>request. findUnique (helpRequests s) i = Some request \<and> status request \<noteq> Resolved
           \<and> i \<notin> sentSupervisorResponses s
           \<and> findUnique (helpRequests s1) i = Some (resolvedRow now answer k request)"
proof -
  from assms have ns: "i \<notin> sentSupervisorResponses s"
    by (auto simp: resolveHelpRequest_def split: if_splits)
  with assms obtain request where r: "findUnique (helpRequests s) i = Some request"
    by (cases "findUnique (helpRequests s) i") (auto simp: resolveHelpRequest_def getById_def)
  from assms ns r have nr: "status request \<noteq> Resolved"
    by (auto simp: resolveHelpRequest_def getById_def split: if_splits)
  from resolveHelpRequest_findUnique [OF r, of now sent k i answer] assms ns nr
  have "findUnique (helpRequests s1) i = Some (resolvedRow now answer k request)"
    by simp
  with r nr ns show ?thesis by blast
qed

lemma resolveHelpRequest_again:
  assumes "findUnique (helpRequests s) i = Some h" and "status h = Resolved"
  shows "(fst (resolveHelpRequest now sent k i answer s) = Inr AlreadyProcessed
            \<or> fst (resolveHelpRequest now sent k i answer s) = Inr AlreadyResolved)
         \<and> snd (resolveHelpRequest now sent k i answer s)
             = s\<lparr>sentSupervisorResponses := insert i (sentSupervisorResponses s)\<rparr>"
  using assms
  by (auto simp: resolveHelpRequest_def getById_def insert_absorb)

lemma resolveRoute_again:
  assumes "findUnique (helpRequests s) i = Some h" and "status h = Resolved"
  shows "resolveRoute now sent sentByRoute k i answer s =
           (if truthy answer then BadRequestAlreadyResolved else MissingParameters, s)"
  using assms by (simp add: resolveRoute_def)

lemma resolveRoute_Updated:
  assumes "resolveRoute now sent sentByRoute k i answer s = (response, s1)"
    and "response = ResultJson (Updated u) \<or> response = NotifiedJson (Updated u) b"
  shows "\<exists>s'. resolveHelpRequest now sent k i answer s = (Inr (Updated u), s')
           \<and> helpRequests s1 = helpRequests s'"
proof -
  obtain x s' where r: "resolveHelpRequest now sent k i answer s = (x, s')"
    by (cases "resolveHelpRequest now sent k i answer s")
  from assms have c: "truthy answer
      \<and> \<not> (case findUnique (helpRequests s) i of None \<Rightarrow> False | Some r \<Rightarrow> status r = Resolved)"
    by (auto simp: resolveRoute_def split: if_splits)
  have t: "helpRequests s1 = helpRequests s'"
    using resolveRoute_table [of now sent sentByRoute k i answer s] c assms(1) r by simp
  have "x = Inr (Updated u)"
    using assms r c
    by (cases x) (auto simp: resolveRoute_def Let_def split: option.splits if_splits)
  with r t show ?thesis by simp
qed

text \<open>
  C3, as the code has it, for rows with distinct ids: over every sequence of
  \<open>resolveHelpRequest\<close>, resolve route, \<open>markAsExpired\<close> and timeout worker runs,
  whatever writes the store rejects, a request keeps its id, its status changes only
  from pending to resolved, from pending to unresolved or from unresolved to resolved,
  and a request whose status is the same is unchanged. So a resolved request is
  terminal and keeps its answer, and no request becomes pending again; an unresolved
  request can still be resolved.
\<close>

theorem run_transitions:
  assumes "distinct (map hrId (helpRequests s))" and "findUnique (helpRequests s) i = Some h"
  shows "\<exists>h'. findUnique (helpRequests (run fails operations s)) i = Some h' \<and> evolves h h'"
  using assms
proof (induction operations arbitrary: s h)
  case Nil
  then show ?case by (auto simp: evolves_refl)
next
  case (Cons operation operations)
  from applyOperation_evolves [OF Cons.prems, of fails operation]
  obtain h1 where h1: "findUnique (helpRequests (applyOperation fails operation s)) i = Some h1"
    "evolves h h1" by auto
  have d: "distinct (map hrId (helpRequests (applyOperation fails operation s)))"
    using Cons.prems(1) by (simp add: applyOperation_ids)
  from Cons.IH [OF d h1(1)] obtain h' where
    "findUnique (helpRequests (run fails operations (applyOperation fails operation s))) i = Some h'"
    "evolves h1 h'" by auto
  with h1(2) show ?case by (auto intro: evolves_trans)
qed

theorem run_transitions_witness:
  "map_option status (findUnique (helpRequests (run (\<lambda>i. False)
      [Expire 4000000 ''r1'', Resolve 4000001 True ''k2'' ''r1'' ''No, $90'', Sweep 4000002,
       WorkerTick None 4000003]
      (run (\<lambda>i. False) [Resolve 2000 True ''k1'' ''r1'' ''Yes, $80'']
        (snd (create ''r1'' 1000 ''Do you do perms?'' ''c1'' emptyState))))) ''r1'')
   = Some Resolved"
proof -
  let ?s1 = "run (\<lambda>i. False) [Resolve 2000 True ''k1'' ''r1'' ''Yes, $80'']
        (snd (create ''r1'' 1000 ''Do you do perms?'' ''c1'' emptyState))"
  let ?h = "\<lparr>hrId = ''r1'', question = ''Do you do perms?'', callerId = ''c1'',
             status = Resolved, createdAt = 1000, resolvedAt = Some 2000,
             supervisorResponse = Some ''Yes, $80'', knowledgeBaseEntryId = Some ''k1''\<rparr>"
  have t: "helpRequests ?s1 = [?h]" by code_simp
  have h1: "distinct (map hrId (helpRequests ?s1))" unfolding t by simp
  have h2: "findUnique (helpRequests ?s1) ''r1'' = Some ?h"
    unfolding t by (simp add: findUnique_def)
  from run_transitions [OF h1 h2, of "\<lambda>i. False"
      "[Expire 4000000 ''r1'', Resolve 4000001 True ''k2'' ''r1'' ''No, $90'', Sweep 4000002,
       WorkerTick None 4000003]"]
  show ?thesis
    by (auto simp: evolves_def allowedTransition_def)
qed

text \<open>
  C3 as stated fails: a request expired by \<open>markAsExpired\<close> or by a sweep is unresolved,
  and a later \<open>resolveHelpRequest\<close>, or the resolve route, makes it resolved; their
  guards test for the status resolved only.
\<close>

theorem expired_request_resolved:
  "map status (helpRequests (run (\<lambda>i. False) [Expire 2000000 ''r1'']
      (snd (create ''r1'' 1000 ''Do you do perms?'' ''c1'' emptyState)))) = [Unresolved]
   \<and> map status (helpRequests (run (\<lambda>i. False)
        [Expire 2000000 ''r1'', Resolve 2000001 True ''k1'' ''r1'' ''Yes, $80'']
      (snd (create ''r1'' 1000 ''Do you do perms?'' ''c1'' emptyState)))) = [Resolved]
   \<and> map status (helpRequests (run (\<lambda>i. False)
        [Sweep 2000000, ResolveByRoute 2000001 True True ''k1'' ''r1'' ''Yes, $80'']
      (snd (create ''r1'' 1000 ''Do you do perms?'' ''c1'' emptyState)))) = [Resolved]"
  by code_simp

text \<open>
  C2: after a first resolve of request \<open>i\<close> that wrote the answer \<open>a1\<close> at time \<open>now1\<close>,
  a second resolve with any answer \<open>a2\<close> overwrites nothing. Through the resolve route
  the second call is answered with the already-resolved response and the whole state
  is unchanged. \<open>resolveHelpRequest\<close> called again returns one of its two
  already-handled results without throwing, and the state is unchanged but that the id
  is in the set of processed ids. In both cases the request is still resolved with
  answer \<open>a1\<close> and resolution time \<open>now1\<close>.
\<close>

theorem resolve_idempotent:
  "(resolveHelpRequest now1 sent1 k1 i a1 s = (Inr (Updated u), s1) \<longrightarrow>
      (fst (resolveHelpRequest now2 sent2 k2 i a2 s1) = Inr AlreadyProcessed
         \<or> fst (resolveHelpRequest now2 sent2 k2 i a2 s1) = Inr AlreadyResolved)
      \<and> snd (resolveHelpRequest now2 sent2 k2 i a2 s1)
           = s1\<lparr>sentSupervisorResponses := insert i (sentSupervisorResponses s1)\<rparr>
      \<and> (\<exists>h. getById i (snd (resolveHelpRequest now2 sent2 k2 i a2 s1)) = Some h
             \<and> getById i s1 = Some h \<and> status h = Resolved
             \<and> supervisorResponse h = Some a1 \<and> resolvedAt h = Some now1))
   \<and> (resolveRoute now1 sent1 sentByRoute1 k1 i a1 s = (response, s1)
        \<and> (response = ResultJson (Updated u) \<or> response = NotifiedJson (Updated u) b) \<longrightarrow>
      resolveRoute now2 sent2 sentByRoute2 k2 i a2 s1
        = (if truthy a2 then BadRequestAlreadyResolved else MissingParameters, s1)
      \<and> (\<exists>h. getById i s1 = Some h \<and> status h = Resolved
             \<and> supervisorResponse h = Some a1 \<and> resolvedAt h = Some now1))"
proof (intro conjI impI)
  assume first: "resolveHelpRequest now1 sent1 k1 i a1 s = (Inr (Updated u), s1)"
  from resolveHelpRequest_Updated [OF first] obtain request where
    row: "findUnique (helpRequests s1) i = Some (resolvedRow now1 a1 k1 request)"
    by blast
  have st: "status (resolvedRow now1 a1 k1 request) = Resolved"
    by (simp add: resolvedRow_def)
  note again = resolveHelpRequest_again [OF row st, of now2 sent2 k2 a2]
  from again show "fst (resolveHelpRequest now2 sent2 k2 i a2 s1) = Inr AlreadyProcessed
         \<or> fst (resolveHelpRequest now2 sent2 k2 i a2 s1) = Inr AlreadyResolved"
    by blast
  from again show "snd (resolveHelpRequest now2 sent2 k2 i a2 s1)
           = s1\<lparr>sentSupervisorResponses := insert i (sentSupervisorResponses s1)\<rparr>"
    by blast
  from again row show "\<exists>h. getById i (snd (resolveHelpRequest now2 sent2 k2 i a2 s1)) = Some h
             \<and> getById i s1 = Some h \<and> status h = Resolved
             \<and> supervisorResponse h = Some a1 \<and> resolvedAt h = Some now1"
    by (simp add: getById_def resolvedRow_def)
next
  assume first: "resolveRoute now1 sent1 sentByRoute1 k1 i a1 s = (response, s1)
        \<and> (response = ResultJson (Updated u) \<or> response = NotifiedJson (Updated u) b)"
  from resolveRoute_Updated [of now1 sent1 sentByRoute1 k1 i a1 s response s1 u b] first
  obtain s' where r: "resolveHelpRequest now1 sent1 k1 i a1 s = (Inr (Updated u), s')"
    and t: "helpRequests s1 = helpRequests s'" by blast
  from resolveHelpRequest_Updated [OF r] obtain request where
    "findUnique (helpRequests s') i = Some (resolvedRow now1 a1 k1 request)"
    by blast
  with t have row: "findUnique (helpRequests s1) i = Some (resolvedRow now1 a1 k1 request)"
    by simp
  have st: "status (resolvedRow now1 a1 k1 request) = Resolved"
    by (simp add: resolvedRow_def)
  from resolveRoute_again [OF row st]
  show "resolveRoute now2 sent2 sentByRoute2 k2 i a2 s1
        = (if truthy a2 then BadRequestAlreadyResolved else MissingParameters, s1)" .
  from row show "\<exists>h. getById i s1 = Some h \<and> status h = Resolved
             \<and> supervisorResponse h = Some a1 \<and> resolvedAt h = Some now1"
    by (simp add: getById_def resolvedRow_def)
qed

theorem resolve_idempotent_witness:
  "(fst (resolveHelpRequest 3000 True ''k2'' ''r1'' ''No, $90''
          (snd (resolveHelpRequest 2000 True ''k1'' ''r1'' ''Yes, $80''
            (snd (create ''r1'' 1000 ''Do you do perms?'' ''c1'' emptyState))))) = Inr AlreadyProcessed
    \<or> fst (resolveHelpRequest 3000 True ''k2'' ''r1'' ''No, $90''
          (snd (resolveHelpRequest 2000 True ''k1'' ''r1'' ''Yes, $80''
            (snd (create ''r1'' 1000 ''Do you do perms?'' ''c1'' emptyState))))) = Inr AlreadyResolved)
   \<and> fst (resolveRoute 3000 True True ''k2'' ''r1'' ''No, $90''
          (snd (resolveRoute 2000 True True ''k1'' ''r1'' ''Yes, $80''
            (snd (create ''r1'' 1000 ''Do you do perms?'' ''c1'' emptyState)))))
       = BadRequestAlreadyResolved"
proof -
  let ?s0 = "snd (create ''r1'' 1000 ''Do you do perms?'' ''c1'' emptyState)"
  let ?u = "\<lparr>hrId = ''r1'', question = ''Do you do perms?'', callerId = ''c1'',
             status = Resolved, createdAt = 1000, resolvedAt = Some 2000,
             supervisorResponse = Some ''Yes, $80'', knowledgeBaseEntryId = None\<rparr>"
  let ?x = "resolveHelpRequest 2000 True ''k1'' ''r1'' ''Yes, $80'' ?s0"
  let ?y = "resolveRoute 2000 True True ''k1'' ''r1'' ''Yes, $80'' ?s0"
  have "fst ?x = Inr (Updated ?u)" by code_simp
  then have h1: "?x = (Inr (Updated ?u), snd ?x)" by (simp add: prod_eq_iff)
  have "fst ?y = NotifiedJson (Updated ?u) True" by code_simp
  then have h2: "?y = (NotifiedJson (Updated ?u) True, snd ?y)
      \<and> (NotifiedJson (Updated ?u) True = ResultJson (Updated ?u)
           \<or> NotifiedJson (Updated ?u) True = NotifiedJson (Updated ?u) True)"
    by (simp add: prod_eq_iff)
  have t: "truthy ''No, $90''" by (simp add: truthy_def)
  note inst1 = resolve_idempotent [of 2000 True "''k1''" "''r1''" "''Yes, $80''" ?s0 ?u "snd ?x"
      3000 True "''k2''" "''No, $90''" True "NotifiedJson (Updated ?u) True" True]
  from inst1 [THEN conjunct1, THEN mp, OF h1] have a:
    "fst (resolveHelpRequest 3000 True ''k2'' ''r1'' ''No, $90'' (snd ?x)) = Inr AlreadyProcessed
     \<or> fst (resolveHelpRequest 3000 True ''k2'' ''r1'' ''No, $90'' (snd ?x)) = Inr AlreadyResolved"
    by blast
  note inst2 = resolve_idempotent [of 2000 True "''k1''" "''r1''" "''Yes, $80''" ?s0 ?u "snd ?y"
      3000 True "''k2''" "''No, $90''" True "NotifiedJson (Updated ?u) True" True True]
  from inst2 [THEN conjunct2, THEN mp, OF h2] t have b:
    "fst (resolveRoute 3000 True True ''k2'' ''r1'' ''No, $90'' (snd ?y)) = BadRequestAlreadyResolved"
    by simp
  from a b show ?thesis by blast
qed

section \<open>Properties of \<open>handleMessage\<close> and of the notification listener\<close>




lemma supervisorResponseCache_emit [simp]:
  "supervisorResponseCache (emit e s) = supervisorResponseCache s"
  by (simp add: emit_def)

lemma ledgerStep_same:
  "\<not> answersRequest i r \<Longrightarrow> supervisorResponseCache s1 = supervisorResponseCache s \<Longrightarrow>
     ledgerStep c i s r s1"
  by (simp add: ledgerStep_def)













lemma mostRecent_None: "mostRecent xs = None \<longleftrightarrow> xs = []"
  by (induction xs) (auto split: option.splits)

lemma mostRecent_member: "mostRecent xs = Some g \<Longrightarrow> g \<in> set xs"
  by (induction xs arbitrary: g) (auto split: option.splits if_splits)

lemma mostRecent_later_limit:
  assumes "limit1 \<le> limit2"
  shows "mostRecent (filter (resolvedSince limit2) xs) = None
         \<or> mostRecent (filter (resolvedSince limit2) xs) = mostRecent (filter (resolvedSince limit1) xs)"
proof (induction xs)
  case Nil
  show ?case by simp
next
  case (Cons h hs)
  let ?m1 = "mostRecent (filter (resolvedSince limit1) hs)"
  let ?m2 = "mostRecent (filter (resolvedSince limit2) hs)"
  have imp: "resolvedSince limit1 g" if "resolvedSince limit2 g" for g
    using that assms by (auto simp: resolvedSince_def split: option.splits)
  show ?case
  proof (cases "resolvedSince limit1 h")
    case False
    with imp [of h] have "\<not> resolvedSince limit2 h" by blast
    with False Cons.IH show ?thesis by simp
  next
    case q1: True
    show ?thesis
    proof (cases "resolvedSince limit2 h")
      case False
      show ?thesis
      proof (cases ?m2)
        case None
        with False show ?thesis by simp
      next
        case (Some g)
        with Cons.IH have m1: "?m1 = Some g" by simp
        from mostRecent_member [OF Some] have "resolvedSince limit2 g" by simp
        with False q1 have "laterThan (resolvedAt g) (resolvedAt h)"
          by (auto simp: resolvedSince_def split: option.splits)
        with False q1 Some m1 show ?thesis by simp
      qed
    next
      case q2: True
      show ?thesis
      proof (cases ?m2)
        case (Some g)
        with Cons.IH have "?m1 = Some g" by simp
        with Some q1 q2 show ?thesis by simp
      next
        case None
        show ?thesis
        proof (cases ?m1)
          case n1: None
          with None q1 q2 show ?thesis by simp
        next
          case (Some g)
          have "\<not> laterThan (resolvedAt g) (resolvedAt h)"
          proof
            assume l: "laterThan (resolvedAt g) (resolvedAt h)"
            from mostRecent_member [OF Some] have g: "g \<in> set hs" "resolvedSince limit1 g" by simp_all
            from l q2 g(2) have "resolvedSince limit2 g"
              by (auto simp: resolvedSince_def split: option.splits)
            with g(1) have "filter (resolvedSince limit2) hs \<noteq> []"
              by (auto simp: filter_empty_conv)
            with None show False by (simp add: mostRecent_None)
          qed
          with None Some q1 q2 show ?thesis by simp
        qed
      qed
    qed
  qed
qed

lemma recentResponse_alt:
  "recentResponse now c s =
     mostRecent (filter (resolvedSince (now - 60 * 1000)) (resolvedFor (helpRequests s) (formatCallerId c)))"
  unfolding recentResponse_def
  by (rule arg_cong [where f = mostRecent], rule filter_cong)
    (auto simp: resolvedSince_def split: option.splits)

lemma recentResponse_later:
  assumes "now1 \<le> now2" and "helpRequests s2 = helpRequests s1 @ [new]" and "status new = Pending"
  shows "recentResponse now2 c s2 = None \<or> recentResponse now2 c s2 = recentResponse now1 c s1"
proof -
  have "resolvedFor (helpRequests s2) (formatCallerId c) = resolvedFor (helpRequests s1) (formatCallerId c)"
    using assms(2,3) by (simp add: resolvedFor_def)
  then show ?thesis
    unfolding recentResponse_alt
    using mostRecent_later_limit [of "now1 - 60 * 1000" "now2 - 60 * 1000"] assms(1) by simp
qed

lemma unsentRecent_later:
  assumes "now1 \<le> now2" and "helpRequests s2 = helpRequests s1 @ [new]" and "status new = Pending"
    and "supervisorResponseCache s2 = supervisorResponseCache s1"
    and "recentLookupFails f1 \<longrightarrow> recentLookupFails f2"
    and "\<not> unsentRecent f1 now1 c s1"
  shows "\<not> unsentRecent f2 now2 c s2"
  using recentResponse_later [OF assms(1,2,3), of c] assms(4,5,6)
  by (auto simp: unsentRecent_def split: option.splits)


lemma statusCheck_not_checking:
  "alreadySent \<noteq> CheckingWithSupervisor m \<Longrightarrow>
     fst (statusCheck now c alreadySent s) \<noteq> CheckingWithSupervisor m"
  by (simp add: statusCheck_def Let_def deliver_def split: option.splits)

lemma statusCheck_table:
  "helpRequests (snd (statusCheck now c alreadySent s)) = helpRequests s"
  by (simp add: statusCheck_def Let_def deliver_def split: option.splits)

lemma afterPendingLookup_cases:
  "afterPendingLookup (findPendingRequest faults c message s) faults newId now message c s1 =
     (if \<not> pendingLookupFails faults \<and> pendingFor c message (helpRequests s) \<noteq> []
      then (WaitingForSupervisor, s1)
      else createRequest faults newId now message c s1)"
proof -
  let ?P = "\<lambda>h. callerId h = createCallerIdWhereClause (formatCallerId c)
                 \<and> status h = Pending \<and> question h = message"
  have "(find ?P (helpRequests s) = None) = (filter ?P (helpRequests s) = [])"
    by (auto simp: find_None_iff filter_empty_conv)
  then show ?thesis
    by (cases "find ?P (helpRequests s)")
      (simp_all add: afterPendingLookup_def findPendingRequest_def pendingFor_def)
qed

lemma escalate_cases:
  "escalate faults newId now message caller s =
     (if hasCaller caller \<and> \<not> isSpecialMessage message then
        (if \<not> pendingLookupFails faults
            \<and> pendingFor (the caller) message (helpRequests s) \<noteq> []
         then (WaitingForSupervisor, s)
         else createRequest faults newId now message (the caller) s)
      else if hasCaller caller \<and> isSpecialMessage message then (WaitingForSupervisor, s)
      else (DontKnow, s))"
  by (simp add: escalate_def afterPendingLookup_cases)

lemma regularFlow_miss:
  "knowledgeMiss faults message s \<Longrightarrow>
     regularFlow faults newId now message caller s = escalate faults newId now message caller s"
  by (simp add: regularFlow_def knowledgeMiss_def)

lemma regularFlow_hit:
  "\<not> knowledgeMiss faults message s \<Longrightarrow>
     (\<exists>answer. fst (regularFlow faults newId now message caller s) = KnowledgeAnswer answer)
     \<and> helpRequests (snd (regularFlow faults newId now message caller s)) = helpRequests s"
  by (auto simp: regularFlow_def knowledgeMiss_def split: option.splits)

lemma handleMessage_cases:
  "handleMessage faults newId now roomName message (Some c) s =
     (if \<not> hasCaller (Some c) then regularFlow faults newId now message (Some c) s
      else if message = ''__CHECK_SUPERVISOR_RESPONSES__''
      then (if statusLookupFails faults
            then (NoSupervisorResponse, emit (CallerMessageReceived roomName c message) s)
            else statusCheck now c AlreadySentCommand
                   (emit (CallerMessageReceived roomName c message) s))
      else if isStatusQuery message \<and> \<not> statusLookupFails faults
      then statusCheck now c AlreadySentQuery (emit (CallerMessageReceived roomName c message) s)
      else if unsentRecent faults now c (emit (CallerMessageReceived roomName c message) s)
      then deliver now c (the (recentResponse now c (emit (CallerMessageReceived roomName c message) s)))
             (the (supervisorResponse (the (recentResponse now c
                (emit (CallerMessageReceived roomName c message) s)))))
             (emit (CallerMessageReceived roomName c message) s)
      else regularFlow faults newId now message (Some c)
             (emit (CallerMessageReceived roomName c message) s))"
  by (simp add: handleMessage_def Let_def isStatusQuery_def unsentRecent_def split: option.splits)

lemma handleMessage_escalates:
  assumes "hasCaller (Some c)" and "message \<noteq> ''__CHECK_SUPERVISOR_RESPONSES__''"
    and "\<not> (isStatusQuery message \<and> \<not> statusLookupFails faults)"
    and "\<not> unsentRecent faults now c (emit (CallerMessageReceived roomName c message) s)"
    and "knowledgeMiss faults message (emit (CallerMessageReceived roomName c message) s)"
    and "\<not> isSpecialMessage message"
  shows "handleMessage faults newId now roomName message (Some c) s =
           afterPendingLookup
             (findPendingRequest faults c message (emit (CallerMessageReceived roomName c message) s))
             faults newId now message c (emit (CallerMessageReceived roomName c message) s)"
  using assms by (auto simp: handleMessage_cases regularFlow_miss escalate_def)

lemma pendingFor_new:
  "pendingFor c message (table @ [createHelpRequestData newId now message (formatCallerId c)])
     = pendingFor c message table @ [createHelpRequestData newId now message (formatCallerId c)]"
  by (simp add: pendingFor_def createHelpRequestData_def createCallerIdWhereClause_def)

lemma escalate_count:
  "\<not> pendingLookupFails faults \<Longrightarrow>
   length (pendingFor c message (helpRequests (snd (escalate faults newId now message (Some c) s))))
     \<le> max 1 (length (pendingFor c message (helpRequests s)))"
  by (simp add: escalate_cases createRequest_def pendingFor_new)

lemma regularFlow_count:
  assumes "\<not> pendingLookupFails faults"
  shows "length (pendingFor c message
            (helpRequests (snd (regularFlow faults newId now message (Some c) s))))
           \<le> max 1 (length (pendingFor c message (helpRequests s)))"
proof (cases "knowledgeMiss faults message s")
  case True
  then show ?thesis
    using escalate_count [OF assms, of c message newId now s] by (simp add: regularFlow_miss)
next
  case False
  from regularFlow_hit [OF False, of newId now "Some c"] show ?thesis by simp
qed

lemma helpRequests_deliver [simp]: "helpRequests (snd (deliver now c h response s)) = helpRequests s"
  by (simp add: deliver_def)

lemma handleMessage_count:
  assumes "\<not> pendingLookupFails faults"
  shows "length (pendingFor c message
            (helpRequests (snd (handleMessage faults newId now roomName message (Some c) s))))
           \<le> max 1 (length (pendingFor c message (helpRequests s)))"
  using regularFlow_count [OF assms, of c message newId now s]
    regularFlow_count [OF assms, of c message newId now
      "emit (CallerMessageReceived roomName c message) s"]
  by (simp add: handleMessage_cases statusCheck_table)

lemma regularFlow_found:
  assumes "\<not> pendingLookupFails faults" and "pendingFor c message (helpRequests s) \<noteq> []"
  shows "helpRequests (snd (regularFlow faults newId now message (Some c) s)) = helpRequests s"
proof (cases "knowledgeMiss faults message s")
  case True
  then show ?thesis
    using assms by (simp add: regularFlow_miss escalate_cases)
next
  case False
  from regularFlow_hit [OF False, of newId now "Some c"] show ?thesis by simp
qed

lemma handleMessage_found:
  assumes "\<not> pendingLookupFails faults" and "pendingFor c message (helpRequests s) \<noteq> []"
  shows "helpRequests (snd (handleMessage faults newId now roomName message (Some c) s))
           = helpRequests s"
  using regularFlow_found [OF assms(1), of c message s newId now]
    regularFlow_found [OF assms(1), of c message
      "emit (CallerMessageReceived roomName c message) s" newId now] assms(2)
  by (simp add: handleMessage_cases statusCheck_table)

lemma handleMessage_checking:
  assumes "handleMessage faults newId now roomName message (Some c) s
             = (CheckingWithSupervisor m, s1)"
  shows "hasCaller (Some c) \<and> message \<noteq> ''__CHECK_SUPERVISOR_RESPONSES__''
         \<and> \<not> (isStatusQuery message \<and> \<not> statusLookupFails faults)
         \<and> \<not> unsentRecent faults now c (emit (CallerMessageReceived roomName c message) s)
         \<and> knowledgeMiss faults message (emit (CallerMessageReceived roomName c message) s)
         \<and> \<not> isSpecialMessage message
         \<and> (pendingLookupFails faults \<or> pendingFor c message (helpRequests s) = [])
         \<and> s1 = (emit (CallerMessageReceived roomName c message) s)
                  \<lparr>helpRequests := helpRequests s @
                     [createHelpRequestData newId now message (formatCallerId c)]\<rparr>"
proof -
  let ?s0 = "emit (CallerMessageReceived roomName c message) s"
  have esc: "hasCaller (Some c) \<and> \<not> isSpecialMessage message
       \<and> (pendingLookupFails faults \<or> pendingFor c message (helpRequests s0) = [])
       \<and> s1 = s0\<lparr>helpRequests := helpRequests s0 @
                     [createHelpRequestData newId now message (formatCallerId c)]\<rparr>"
    if "escalate faults newId now message (Some c) s0 = (CheckingWithSupervisor m, s1)" for s0
    using that by (auto simp: escalate_cases createRequest_def split: if_splits)
  have reg: "knowledgeMiss faults message s0
       \<and> escalate faults newId now message (Some c) s0 = (CheckingWithSupervisor m, s1)"
    if "regularFlow faults newId now message (Some c) s0 = (CheckingWithSupervisor m, s1)" for s0
  proof (cases "knowledgeMiss faults message s0")
    case True
    with that show ?thesis by (simp add: regularFlow_miss)
  next
    case False
    from regularFlow_hit [OF False, of newId now "Some c"] that show ?thesis by auto
  qed
  have hc: "hasCaller (Some c)"
  proof (rule ccontr)
    assume n: "\<not> hasCaller (Some c)"
    with assms have "regularFlow faults newId now message (Some c) s = (CheckingWithSupervisor m, s1)"
      by (simp add: handleMessage_cases)
    from esc [OF reg [OF this, THEN conjunct2]] n show False by simp
  qed
  have nc: "message \<noteq> ''__CHECK_SUPERVISOR_RESPONSES__''"
  proof
    assume c: "message = ''__CHECK_SUPERVISOR_RESPONSES__''"
    show False
    proof (cases "statusLookupFails faults")
      case True
      with assms hc c show False by (simp add: handleMessage_cases)
    next
      case False
      with assms hc c
      have "fst (statusCheck now c AlreadySentCommand ?s0) = CheckingWithSupervisor m"
        by (simp add: handleMessage_cases)
      with statusCheck_not_checking [of AlreadySentCommand m now c ?s0] show False by simp
    qed
  qed
  have nq: "\<not> (isStatusQuery message \<and> \<not> statusLookupFails faults)"
  proof
    assume "isStatusQuery message \<and> \<not> statusLookupFails faults"
    with assms hc nc have "fst (statusCheck now c AlreadySentQuery ?s0) = CheckingWithSupervisor m"
      by (simp add: handleMessage_cases)
    with statusCheck_not_checking [of AlreadySentQuery m now c ?s0] show False by simp
  qed
  have nu: "\<not> unsentRecent faults now c ?s0"
  proof
    assume "unsentRecent faults now c ?s0"
    with assms hc nc nq show False
      by (simp add: handleMessage_cases deliver_def)
  qed
  from assms hc nc nq nu
  have r: "regularFlow faults newId now message (Some c) ?s0 = (CheckingWithSupervisor m, s1)"
    by (simp add: handleMessage_cases)
  from reg [OF r] esc [of ?s0] hc nc nq nu show ?thesis by simp
qed

text \<open>
  C4, as the code has it. The check for a pending request is made only where the store
  answers the lookup of the call: then two successive calls of \<open>handleMessage\<close> by the
  same caller with the same text leave at most one pending request for that caller and
  text (or as many as there were before, if there were several). When the first call
  escalates, it inserts one pending request; a second call made after it, whose
  pending-request lookup the store answers, finds that request and inserts nothing,
  and the request is the only one if the first lookup was answered as well. The second
  call returns the waiting text when it comes at the same or a later time and the store
  rejects in it every earlier lookup that it rejected in the first call.
\<close>

theorem handleMessage_no_duplicate:
  "(\<not> pendingLookupFails f1 \<and> \<not> pendingLookupFails f2 \<longrightarrow>
      length (pendingFor c message (helpRequests (snd (handleMessage f2 n2 t2 room2 message (Some c)
        (snd (handleMessage f1 n1 t1 room1 message (Some c) s))))))
        \<le> max 1 (length (pendingFor c message (helpRequests s))))
   \<and> (handleMessage f1 n1 t1 room1 message (Some c) s = (CheckingWithSupervisor m, s1)
        \<and> \<not> pendingLookupFails f2 \<longrightarrow>
        helpRequests s1
          = helpRequests s @ [createHelpRequestData n1 t1 message (formatCallerId c)]
        \<and> helpRequests (snd (handleMessage f2 n2 t2 room2 message (Some c) s1)) = helpRequests s1
        \<and> (\<not> pendingLookupFails f1 \<longrightarrow> length (pendingFor c message (helpRequests s1)) = 1))
   \<and> (handleMessage f1 n1 t1 room1 message (Some c) s = (CheckingWithSupervisor m, s1)
        \<and> t1 \<le> t2 \<and> \<not> pendingLookupFails f2
        \<and> (statusLookupFails f1 \<longrightarrow> statusLookupFails f2)
        \<and> (recentLookupFails f1 \<longrightarrow> recentLookupFails f2)
        \<and> (knowledgeLookupFails f1 \<longrightarrow> knowledgeLookupFails f2) \<longrightarrow>
        fst (handleMessage f2 n2 t2 room2 message (Some c) s1) = WaitingForSupervisor)"
proof (intro conjI impI)
  assume p: "\<not> pendingLookupFails f1 \<and> \<not> pendingLookupFails f2"
  then have p1: "\<not> pendingLookupFails f1" and p2: "\<not> pendingLookupFails f2" by simp_all
  let ?s1 = "snd (handleMessage f1 n1 t1 room1 message (Some c) s)"
  have "length (pendingFor c message
          (helpRequests (snd (handleMessage f2 n2 t2 room2 message (Some c) ?s1))))
          \<le> max 1 (length (pendingFor c message (helpRequests ?s1)))"
    using p2 by (rule handleMessage_count)
  also have "\<dots> \<le> max 1 (max 1 (length (pendingFor c message (helpRequests s))))"
    using handleMessage_count [OF p1, of c message n1 t1 room1 s] by simp
  finally show "length (pendingFor c message
        (helpRequests (snd (handleMessage f2 n2 t2 room2 message (Some c) ?s1))))
     \<le> max 1 (length (pendingFor c message (helpRequests s)))"
    by simp
next
  assume a: "handleMessage f1 n1 t1 room1 message (Some c) s = (CheckingWithSupervisor m, s1)
             \<and> \<not> pendingLookupFails f2"
  let ?new = "createHelpRequestData n1 t1 message (formatCallerId c)"
  from handleMessage_checking [of f1 n1 t1 room1 message c s m s1] a
  have pf: "pendingLookupFails f1 \<or> pendingFor c message (helpRequests s) = []"
    and s1: "s1 = (emit (CallerMessageReceived room1 c message) s)
                    \<lparr>helpRequests := helpRequests s @ [?new]\<rparr>"
    by blast+
  show t1: "helpRequests s1 = helpRequests s @ [?new]" by (simp add: s1)
  have "pendingFor c message (helpRequests s1) \<noteq> []" by (simp add: t1 pendingFor_new)
  with a show "helpRequests (snd (handleMessage f2 n2 t2 room2 message (Some c) s1)) = helpRequests s1"
    by (simp add: handleMessage_found)
  show "length (pendingFor c message (helpRequests s1)) = 1" if "\<not> pendingLookupFails f1"
    using that pf by (simp add: t1 pendingFor_new)
next
  assume a: "handleMessage f1 n1 t1 room1 message (Some c) s = (CheckingWithSupervisor m, s1)
             \<and> t1 \<le> t2 \<and> \<not> pendingLookupFails f2
             \<and> (statusLookupFails f1 \<longrightarrow> statusLookupFails f2)
             \<and> (recentLookupFails f1 \<longrightarrow> recentLookupFails f2)
             \<and> (knowledgeLookupFails f1 \<longrightarrow> knowledgeLookupFails f2)"
  let ?s0 = "emit (CallerMessageReceived room1 c message) s"
  let ?new = "createHelpRequestData n1 t1 message (formatCallerId c)"
  let ?s0' = "emit (CallerMessageReceived room2 c message) s1"
  from handleMessage_checking [of f1 n1 t1 room1 message c s m s1] a
  have hc: "hasCaller (Some c)" and nc: "message \<noteq> ''__CHECK_SUPERVISOR_RESPONSES__''"
    and nq: "\<not> (isStatusQuery message \<and> \<not> statusLookupFails f1)"
    and nu: "\<not> unsentRecent f1 t1 c ?s0"
    and km: "knowledgeMiss f1 message ?s0" and ns: "\<not> isSpecialMessage message"
    and s1: "s1 = ?s0\<lparr>helpRequests := helpRequests s @ [?new]\<rparr>"
    by blast+
  from a have le: "t1 \<le> t2" and p2: "\<not> pendingLookupFails f2"
    and fs: "statusLookupFails f1 \<longrightarrow> statusLookupFails f2"
    and fr: "recentLookupFails f1 \<longrightarrow> recentLookupFails f2"
    and fk: "knowledgeLookupFails f1 \<longrightarrow> knowledgeLookupFails f2"
    by simp_all
  have t0': "helpRequests ?s0' = helpRequests ?s0 @ [?new]" by (simp add: s1)
  have c0': "supervisorResponseCache ?s0' = supervisorResponseCache ?s0" by (simp add: s1)
  have pn: "status ?new = Pending" by (simp add: createHelpRequestData_def)
  from unsentRecent_later [OF le t0' pn c0' fr nu] have nu': "\<not> unsentRecent f2 t2 c ?s0'" .
  from nq fs have nq': "\<not> (isStatusQuery message \<and> \<not> statusLookupFails f2)" by blast
  have km': "knowledgeMiss f2 message ?s0'"
    using km fk
    by (auto simp: knowledgeMiss_def memoryAnswer_def databaseAnswer_def s1 emit_def
        split: if_splits)
  have pf': "pendingFor c message (helpRequests ?s0') \<noteq> []"
    by (simp add: s1 pendingFor_new)
  have "handleMessage f2 n2 t2 room2 message (Some c) s1 = (WaitingForSupervisor, ?s0')"
    using hc nc nq' nu' km' ns pf' p2
    by (simp add: handleMessage_escalates afterPendingLookup_cases)
  then show "fst (handleMessage f2 n2 t2 room2 message (Some c) s1) = WaitingForSupervisor"
    by simp
qed

theorem handleMessage_no_duplicate_witness:
  "fst (handleMessage noFaults ''n2'' 2000 ''call-c1'' ''Do you do perms?'' (Some ''c1'')
      (snd (handleMessage noFaults ''n1'' 1000 ''call-c1'' ''Do you do perms?'' (Some ''c1'')
        emptyState)))
     = WaitingForSupervisor
   \<and> helpRequests
       (snd (handleMessage noFaults ''n2'' 2000 ''call-c1'' ''Do you do perms?'' (Some ''c1'')
         (snd (handleMessage noFaults ''n1'' 1000 ''call-c1'' ''Do you do perms?'' (Some ''c1'')
           emptyState))))
     = [createHelpRequestData ''n1'' 1000 ''Do you do perms?'' (formatCallerId ''c1'')]
   \<and> length (pendingFor ''c1'' ''Do you do perms?''
        (helpRequests
          (snd (handleMessage noFaults ''n2'' 2000 ''call-c1'' ''Do you do perms?'' (Some ''c1'')
            (snd (handleMessage noFaults ''n1'' 1000 ''call-c1'' ''Do you do perms?'' (Some ''c1'')
              emptyState)))))) \<le> 1"
proof -
  let ?x = "handleMessage noFaults ''n1'' 1000 ''call-c1'' ''Do you do perms?'' (Some ''c1'')
              emptyState"
  have "fst ?x = CheckingWithSupervisor ''Do you do perms?''" by code_simp
  then have x: "?x = (CheckingWithSupervisor ''Do you do perms?'', snd ?x)"
    by (simp add: prod_eq_iff)
  have n: "\<not> pendingLookupFails noFaults" by (simp add: noFaults_def)
  note inst = handleMessage_no_duplicate [of noFaults noFaults "''c1''" "''Do you do perms?''"
      "''n2''" 2000 "''call-c1''" "''n1''" 1000 "''call-c1''" emptyState "''Do you do perms?''"
      "snd ?x"]
  have e: "helpRequests emptyState = []"
    by (simp add: emptyState_def)
  from inst x n
  have a: "fst (handleMessage noFaults ''n2'' 2000 ''call-c1'' ''Do you do perms?'' (Some ''c1'')
                  (snd ?x)) = WaitingForSupervisor"
    by simp
  from inst x n
  have "helpRequests (snd ?x)
          = helpRequests emptyState
              @ [createHelpRequestData ''n1'' 1000 ''Do you do perms?'' (formatCallerId ''c1'')]"
    and "helpRequests (snd (handleMessage noFaults ''n2'' 2000 ''call-c1'' ''Do you do perms?''
                  (Some ''c1'') (snd ?x))) = helpRequests (snd ?x)"
    by blast+
  then have b: "helpRequests (snd (handleMessage noFaults ''n2'' 2000 ''call-c1''
                  ''Do you do perms?'' (Some ''c1'') (snd ?x)))
          = [createHelpRequestData ''n1'' 1000 ''Do you do perms?'' (formatCallerId ''c1'')]"
    by (simp add: e)
  from inst n
  have c: "length (pendingFor ''c1'' ''Do you do perms?''
        (helpRequests (snd (handleMessage noFaults ''n2'' 2000 ''call-c1'' ''Do you do perms?''
          (Some ''c1'') (snd ?x))))) \<le> 1"
    by (simp add: e pendingFor_def)
  from a b c show ?thesis by blast
qed

text \<open>
  C4 as stated fails in two ways. A rejected pending-request lookup is only logged and
  the call goes on to the insert: the second of two successive calls then stores a
  second pending request for the same caller and text and answers that it is checking
  with the supervisor. And the lookup and the insert are two awaited steps: when two
  calls with the same text overlap, so that both lookups are answered before either
  insert, both find nothing and both insert, with no store failure at all.
\<close>

theorem handleMessage_duplicate_pending:
  "fst (handleMessage noFaults ''n1'' 1000 ''call-c1'' ''Do you do perms?'' (Some ''c1'')
      emptyState) = CheckingWithSupervisor ''Do you do perms?''
   \<and> fst (handleMessage (noFaults\<lparr>pendingLookupFails := True\<rparr>) ''n2'' 2000 ''call-c1''
        ''Do you do perms?'' (Some ''c1'')
        (snd (handleMessage noFaults ''n1'' 1000 ''call-c1'' ''Do you do perms?'' (Some ''c1'')
          emptyState))) = CheckingWithSupervisor ''Do you do perms?''
   \<and> map hrId (pendingFor ''c1'' ''Do you do perms?''
        (helpRequests (snd (handleMessage (noFaults\<lparr>pendingLookupFails := True\<rparr>) ''n2'' 2000
          ''call-c1'' ''Do you do perms?'' (Some ''c1'')
          (snd (handleMessage noFaults ''n1'' 1000 ''call-c1'' ''Do you do perms?'' (Some ''c1'')
            emptyState)))))) = [''n1'', ''n2'']
   \<and> fst (escalateTogether noFaults ''n1'' ''n2'' 1000 ''Do you do perms?'' ''c1''
        (emit (CallerMessageReceived ''call-c1'' ''c1'' ''Do you do perms?'')
          (emit (CallerMessageReceived ''call-c1'' ''c1'' ''Do you do perms?'') emptyState)))
       = (CheckingWithSupervisor ''Do you do perms?'', CheckingWithSupervisor ''Do you do perms?'')
   \<and> map hrId (pendingFor ''c1'' ''Do you do perms?''
        (helpRequests (snd (escalateTogether noFaults ''n1'' ''n2'' 1000 ''Do you do perms?'' ''c1''
          (emit (CallerMessageReceived ''call-c1'' ''c1'' ''Do you do perms?'')
            (emit (CallerMessageReceived ''call-c1'' ''c1'' ''Do you do perms?'') emptyState))))))
       = [''n1'', ''n2'']"
  by code_simp

end
